theory Spec2Isabelle
  imports Main "HOL-Library.Multiset"
begin

section \<open>Grids of JavaScript values\<close>

text \<open>
  The three generators (word search, crossword, bingo) keep their grids in arrays of
  arrays. A cell read can yield \<open>undefined\<close> (an index past the end of a row),
  \<open>null\<close> (the crossword's block) or a string (the word search's empty cell is the
  empty string), so one datatype of cell values serves all of them.
\<close>

datatype jsval = Undefined | Null | Str string

type_synonym Grid = "jsval list list"

text \<open>
  \<open>TypeError\<close>: reading or writing \<open>grid[r][c]\<close> where \<open>grid[r]\<close> is
  \<open>undefined\<close>. \<open>NonIndexWrite\<close>: an assignment \<open>grid[r][c] = v\<close> with
  \<open>c < 0\<close>; JavaScript stores the value under a property that is not an array element,
  which a list cannot hold, so the embedding stops there with a value of its own
  instead of losing the write. \<open>Error msg\<close>: \<open>throw new Error(msg)\<close>.
\<close>

datatype error = TypeError | NonIndexWrite | Error string

text \<open>\<open>row[c]\<close>: an index outside the array reads as \<open>undefined\<close>.\<close>

definition getElem :: "jsval list \<Rightarrow> int \<Rightarrow> jsval" where
  "getElem xs c = (if 0 \<le> c \<and> c < int (length xs) then xs ! nat c else Undefined)"

text \<open>\<open>grid[r][c]\<close> as an expression.\<close>

definition getCell :: "Grid \<Rightarrow> int \<Rightarrow> int \<Rightarrow> error + jsval" where
  "getCell grid r c =
     (if 0 \<le> r \<and> r < int (length grid) then Inr (getElem (grid ! nat r) c)
      else Inl TypeError)"

text \<open>\<open>row[i] = v\<close>: an index past the end grows the array, the gap reading as
  \<open>undefined\<close>.\<close>

definition setElem :: "jsval list \<Rightarrow> nat \<Rightarrow> jsval \<Rightarrow> jsval list" where
  "setElem xs i v =
     (if i < length xs then xs[i := v]
      else xs @ replicate (i - length xs) Undefined @ [v])"

text \<open>\<open>grid[r][c] = v\<close> as a statement.\<close>

definition setCell :: "Grid \<Rightarrow> int \<Rightarrow> int \<Rightarrow> jsval \<Rightarrow> error + Grid" where
  "setCell grid r c v =
     (if 0 \<le> r \<and> r < int (length grid) then
        (if c < 0 then Inl NonIndexWrite
         else Inr (grid[nat r := setElem (grid ! nat r) (nat c) v]))
      else Inl TypeError)"

text \<open>JavaScript's truthiness, on the values a cell can hold.\<close>

fun truthy :: "jsval \<Rightarrow> bool" where
  "truthy Undefined = False"
| "truthy Null = False"
| "truthy (Str s) = (s \<noteq> [])"

text \<open>
  \<open>Math.floor(Math.random() * n)\<close>. The random source is an explicit sequence of
  naturals \<open>rnd\<close>, read at a position that the caller advances; the draw at a
  position is reduced into \<open>{0..<n}\<close>, the range of the source's expression
  (\<open>0\<close> when \<open>n = 0\<close>). Every sequence of indices is the image of some \<open>rnd\<close>.
\<close>

definition randomIndex :: "(nat \<Rightarrow> nat) \<Rightarrow> nat \<Rightarrow> nat \<Rightarrow> nat" where
  "randomIndex rnd k n = (if n = 0 then 0 else rnd k mod n)"

section \<open>Word search\<close>

text \<open>\<open>createEmptyGrid(size)\<close> of the word search: every cell the empty string.\<close>

definition createEmptyGrid :: "nat \<Rightarrow> Grid" where
  "createEmptyGrid n = replicate n (replicate n (Str []))"

text \<open>
  \<open>canPlaceWord\<close> (the same text in both versions of the word search page): the loop
  over \<open>i\<close>, entered at \<open>i\<close>.
\<close>

function canPlaceWord_loop ::
  "Grid \<Rightarrow> string \<Rightarrow> int \<Rightarrow> int \<Rightarrow> int \<Rightarrow> int \<Rightarrow> nat \<Rightarrow> error + bool" where
  "canPlaceWord_loop grid word row col dx dy i =
     (if i < length word then
        (if row + dx * int i < 0 \<or> row + dx * int i \<ge> int (length grid)
            \<or> col + dy * int i < 0 \<or> col + dy * int i \<ge> int (length grid)
         then Inr False
         else (case getCell grid (row + dx * int i) (col + dy * int i) of
                 Inl e \<Rightarrow> Inl e
               | Inr cell \<Rightarrow>
                   if cell \<noteq> Str [] \<and> cell \<noteq> Str [word ! i] then Inr False
                   else canPlaceWord_loop grid word row col dx dy (i + 1)))
      else Inr True)"
  by pat_completeness auto
termination
  by (relation "measure (\<lambda>(grid, word, row, col, dx, dy, i). length word - i)") auto

declare canPlaceWord_loop.simps [simp del]

definition canPlaceWord ::
  "Grid \<Rightarrow> string \<Rightarrow> int \<Rightarrow> int \<Rightarrow> int \<Rightarrow> int \<Rightarrow> error + bool" where
  "canPlaceWord grid word row col dx dy = canPlaceWord_loop grid word row col dx dy 0"

text \<open>
  The loop \<open>for (i = 0; i < word.length; i++) grid[row + dx*i][col + dy*i] = word[i]\<close>,
  entered at \<open>i\<close>. It is the body of \<open>placeWord\<close> after a successful check; the
  crossword writes its letters with the same loop, with step \<open>(0, 1)\<close> for across
  (\<open>grid[row][startCol + j] = word[j]\<close>) and \<open>(1, 0)\<close> for down
  (\<open>grid[startRow + i][col] = word[i]\<close>).
\<close>

function writeWord ::
  "Grid \<Rightarrow> string \<Rightarrow> int \<Rightarrow> int \<Rightarrow> int \<Rightarrow> int \<Rightarrow> nat \<Rightarrow> error + Grid" where
  "writeWord grid word row col dx dy i =
     (if i < length word then
        (case setCell grid (row + dx * int i) (col + dy * int i) (Str [word ! i]) of
           Inl e \<Rightarrow> Inl e
         | Inr grid' \<Rightarrow> writeWord grid' word row col dx dy (i + 1))
      else Inr grid)"
  by pat_completeness auto
termination
  by (relation "measure (\<lambda>(grid, word, row, col, dx, dy, i). length word - i)") auto

declare writeWord.simps [simp del]

text \<open>
  The attempt loop of \<open>placeWord\<close> (the same text in both versions), entered at
  \<open>attempt\<close> with the random source at position \<open>k\<close>. Each attempt draws a
  direction, a row and a column, in this order. The result is the returned Boolean,
  the grid as the call leaves it, and the position of the random source.
  Destructuring \<open>directions[...]\<close> of an empty array throws.
\<close>

function placeWord_loop ::
  "(nat \<Rightarrow> nat) \<Rightarrow> Grid \<Rightarrow> string \<Rightarrow> (int \<times> int) list \<Rightarrow> nat \<Rightarrow> nat
     \<Rightarrow> error + (bool \<times> Grid \<times> nat)" where
  "placeWord_loop rnd grid word directions attempt k =
     (if attempt < 200 then
        (if directions = [] then Inl TypeError
         else
           (case directions ! randomIndex rnd k (length directions) of
              (dx, dy) \<Rightarrow>
                (case canPlaceWord grid word
                        (int (randomIndex rnd (k + 1) (length grid)))
                        (int (randomIndex rnd (k + 2) (length grid))) dx dy of
                   Inl e \<Rightarrow> Inl e
                 | Inr ok \<Rightarrow>
                     if ok then
                       (case writeWord grid word
                               (int (randomIndex rnd (k + 1) (length grid)))
                               (int (randomIndex rnd (k + 2) (length grid))) dx dy 0 of
                          Inl e \<Rightarrow> Inl e
                        | Inr grid' \<Rightarrow> Inr (True, grid', k + 3))
                     else placeWord_loop rnd grid word directions (attempt + 1) (k + 3))))
      else Inr (False, grid, k))"
  by pat_completeness auto
termination
  by (relation "measure (\<lambda>(rnd, grid, word, directions, attempt, k). 200 - attempt)") auto

declare placeWord_loop.simps [simp del]

text \<open>\<open>placeWord(grid, word, directions)\<close> of the second version of the page.\<close>

definition placeWord ::
  "(nat \<Rightarrow> nat) \<Rightarrow> Grid \<Rightarrow> string \<Rightarrow> (int \<times> int) list \<Rightarrow> nat
     \<Rightarrow> error + (bool \<times> Grid \<times> nat)" where
  "placeWord rnd grid word directions k =
     (if length directions = 0 then Inr (False, grid, k)
      else placeWord_loop rnd grid word directions 0 k)"

text \<open>\<open>placeWord(grid, word)\<close> of the first version: right, down, down-right,
  up-right.\<close>

definition placeWord_v1 ::
  "(nat \<Rightarrow> nat) \<Rightarrow> Grid \<Rightarrow> string \<Rightarrow> nat \<Rightarrow> error + (bool \<times> Grid \<times> nat)" where
  "placeWord_v1 rnd grid word k =
     placeWord_loop rnd grid word [(0, 1), (1, 0), (1, 1), (-1, 1)] 0 k"

record DirectionOptions =
  horizontal :: bool
  vertical :: bool
  diagonal :: bool
  backwards :: bool

definition buildDirections :: "DirectionOptions \<Rightarrow> (int \<times> int) list" where
  "buildDirections options =
     (if horizontal options then [(0, 1)] @ (if backwards options then [(0, -1)] else [])
      else [])
     @ (if vertical options then [(1, 0)] @ (if backwards options then [(-1, 0)] else [])
        else [])
     @ (if diagonal options then
          [(1, 1), (1, -1)] @ (if backwards options then [(-1, 1), (-1, -1)] else [])
        else [])"

definition alphabet :: string where
  "alphabet = ''ABCDEFGHIJKLMNOPQRSTUVWXYZ''"

definition randomLetter :: "(nat \<Rightarrow> nat) \<Rightarrow> nat \<Rightarrow> jsval" where
  "randomLetter rnd k = Str [alphabet ! randomIndex rnd k (length alphabet)]"

text \<open>
  Strings are lists of code units below 256. \<open>trim\<close> removes the white space of that
  range from both ends. \<open>toUpperCase\<close> is the library's function: it changes letters
  outside ASCII too, some of them to characters outside the range and one to two
  letters, so the generator takes it as a parameter and every statement about the
  generator holds whatever function it is. \<open>asciiUpperCase\<close> is that function on
  ASCII strings, for the concrete instances.
\<close>

definition isWhiteSpace :: "char \<Rightarrow> bool" where
  "isWhiteSpace ch = (ch \<in> set [CHR 0x09, CHR 0x0A, CHR 0x0B, CHR 0x0C, CHR 0x0D,
                                CHR 0x20, CHR 0xA0])"

definition trim :: "string \<Rightarrow> string" where
  "trim s = rev (dropWhile isWhiteSpace (rev (dropWhile isWhiteSpace s)))"

definition upperChar :: "char \<Rightarrow> char" where
  "upperChar ch =
     (if 97 \<le> (of_char ch :: nat) \<and> (of_char ch :: nat) \<le> 122
      then char_of ((of_char ch :: nat) - 32) else ch)"

definition asciiUpperCase :: "string \<Rightarrow> string" where
  "asciiUpperCase s = map upperChar s"

text \<open>\<open>words.forEach((word) => placeWord(grid, word, directions))\<close>: the Boolean of
  each call is dropped.\<close>

fun placeAll ::
  "(nat \<Rightarrow> nat) \<Rightarrow> Grid \<Rightarrow> string list \<Rightarrow> (int \<times> int) list \<Rightarrow> nat
     \<Rightarrow> error + (Grid \<times> nat)" where
  "placeAll rnd grid [] directions k = Inr (grid, k)"
| "placeAll rnd grid (word # ws) directions k =
     (case placeWord rnd grid word directions k of
        Inl e \<Rightarrow> Inl e
      | Inr (ok, grid', k') \<Rightarrow> placeAll rnd grid' ws directions k')"

text \<open>The fill loops of \<open>generatePuzzle\<close>: the inner loop over \<open>c\<close> in row \<open>r\<close>,
  then the outer loop over \<open>r\<close>.\<close>

function fillRow ::
  "(nat \<Rightarrow> nat) \<Rightarrow> Grid \<Rightarrow> nat \<Rightarrow> nat \<Rightarrow> nat \<Rightarrow> nat \<Rightarrow> error + (Grid \<times> nat)" where
  "fillRow rnd grid sz r c k =
     (if c < sz then
        (case getCell grid (int r) (int c) of
           Inl e \<Rightarrow> Inl e
         | Inr cell \<Rightarrow>
             if \<not> truthy cell then
               (case setCell grid (int r) (int c) (randomLetter rnd k) of
                  Inl e \<Rightarrow> Inl e
                | Inr grid' \<Rightarrow> fillRow rnd grid' sz r (c + 1) (k + 1))
             else fillRow rnd grid sz r (c + 1) k)
      else Inr (grid, k))"
  by pat_completeness auto
termination
  by (relation "measure (\<lambda>(rnd, grid, sz, r, c, k). sz - c)") auto

declare fillRow.simps [simp del]

function fillEmpty ::
  "(nat \<Rightarrow> nat) \<Rightarrow> Grid \<Rightarrow> nat \<Rightarrow> nat \<Rightarrow> nat \<Rightarrow> error + (Grid \<times> nat)" where
  "fillEmpty rnd grid sz r k =
     (if r < sz then
        (case fillRow rnd grid sz r 0 k of
           Inl e \<Rightarrow> Inl e
         | Inr (grid', k') \<Rightarrow> fillEmpty rnd grid' sz (r + 1) k')
      else Inr (grid, k))"
  by pat_completeness auto
termination
  by (relation "measure (\<lambda>(rnd, grid, sz, r, k). sz - r)") auto

declare fillEmpty.simps [simp del]

text \<open>\<open>rawWords.map((w) => w.trim().toUpperCase()).filter((w) => w.length > 0 &&
  w.length <= size)\<close>.\<close>

definition cleanWords :: "(string \<Rightarrow> string) \<Rightarrow> string list \<Rightarrow> nat \<Rightarrow> string list" where
  "cleanWords toUpperCase rawWords sz =
     filter (\<lambda>w. length w > 0 \<and> length w \<le> sz) (map (\<lambda>w. toUpperCase (trim w)) rawWords)"

text \<open>\<open>generatePuzzle(rawWords, size, directionOptions)\<close> of the second version; the
  result is the pair \<open>{ grid, words }\<close>.\<close>

definition generatePuzzle ::
  "(string \<Rightarrow> string) \<Rightarrow> (nat \<Rightarrow> nat) \<Rightarrow> string list \<Rightarrow> nat \<Rightarrow> DirectionOptions
     \<Rightarrow> error + (Grid \<times> string list)" where
  "generatePuzzle toUpperCase rnd rawWords sz directionOptions =
     (case placeAll rnd (createEmptyGrid sz) (cleanWords toUpperCase rawWords sz)
             (buildDirections directionOptions) 0 of
        Inl e \<Rightarrow> Inl e
      | Inr (grid, k) \<Rightarrow>
          (case fillEmpty rnd grid sz 0 k of
             Inl e \<Rightarrow> Inl e
           | Inr (grid', k') \<Rightarrow> Inr (grid', cleanWords toUpperCase rawWords sz)))"

section \<open>Shuffling\<close>

text \<open>
  \<open>shuffleArray\<close> (the same text in the crossword and the bingo page): the loop
  \<open>for (i = copy.length - 1; i > 0; i--)\<close> that swaps \<open>copy[i]\<close> and \<open>copy[j]\<close>,
  \<open>j\<close> drawn from \<open>{0..i}\<close>. On the empty array \<open>copy.length - 1\<close> is \<open>-1\<close>
  and the loop does not run, as for the start value \<open>0\<close> here.
\<close>

function shuffle_loop :: "(nat \<Rightarrow> nat) \<Rightarrow> 'a list \<Rightarrow> nat \<Rightarrow> nat \<Rightarrow> 'a list" where
  "shuffle_loop rnd copy i k =
     (if i > 0 then
        shuffle_loop rnd
          ((copy[i := copy ! randomIndex rnd k (i + 1)])
                [randomIndex rnd k (i + 1) := copy ! i])
          (i - 1) (k + 1)
      else copy)"
  by pat_completeness auto
termination
  by (relation "measure (\<lambda>(rnd, copy, i, k). i)") auto

declare shuffle_loop.simps [simp del]

definition shuffleArray :: "(nat \<Rightarrow> nat) \<Rightarrow> 'a list \<Rightarrow> 'a list" where
  "shuffleArray rnd arr = shuffle_loop rnd arr (length arr - 1) 0"

section \<open>Crossword\<close>

datatype Direction = Across | Down

text \<open>The interface \<open>Entry\<close>; the optional fields are \<open>None\<close> while undefined.\<close>

record Entry =
  entry_id :: int
  entry_answer :: string
  entry_clue :: string
  entry_placed :: bool
  entry_row :: "int option"
  entry_col :: "int option"
  entry_direction :: "Direction option"

record Clue =
  clue_number :: nat
  clue_clue :: string
  clue_answer :: string

record CrosswordPuzzle =
  puzzle_grid :: Grid
  puzzle_numbers :: "nat option list list"
  puzzle_acrossClues :: "Clue list"
  puzzle_downClues :: "Clue list"
  puzzle_unused :: "Entry list"

definition GRID_SIZE :: nat where
  "GRID_SIZE = 15"

text \<open>\<open>createEmptyGrid(size)\<close> of the crossword: every cell \<open>null\<close>.\<close>

definition createEmptyGrid_cw :: "nat \<Rightarrow> Grid" where
  "createEmptyGrid_cw n = replicate n (replicate n Null)"

definition createEmptyNumbers :: "nat \<Rightarrow> nat option list list" where
  "createEmptyNumbers n = replicate n (replicate n None)"

text \<open>
  The check loops of \<open>tryPlaceWord\<close>: the cell at step \<open>j\<close> of the line from
  \<open>(r0, c0)\<close> must be \<open>null\<close> or the word's letter. Across is the line with step
  \<open>(0, 1)\<close> from \<open>(row, startCol)\<close>, down the line with step \<open>(1, 0)\<close> from
  \<open>(startRow, col)\<close>.
\<close>

function checkLine ::
  "Grid \<Rightarrow> string \<Rightarrow> int \<Rightarrow> int \<Rightarrow> int \<Rightarrow> int \<Rightarrow> nat \<Rightarrow> error + bool" where
  "checkLine grid word r0 c0 dr dc j =
     (if j < length word then
        (case getCell grid (r0 + dr * int j) (c0 + dc * int j) of
           Inl e \<Rightarrow> Inl e
         | Inr cell \<Rightarrow>
             if cell \<noteq> Null \<and> cell \<noteq> Str [word ! j] then Inr False
             else checkLine grid word r0 c0 dr dc (j + 1))
      else Inr True)"
  by pat_completeness auto
termination
  by (relation "measure (\<lambda>(grid, word, r0, c0, dr, dc, j). length word - j)") auto

declare checkLine.simps [simp del]

text \<open>
  \<open>tryPlaceWord(grid, entry, row, col, direction, indexInWord)\<close>. The result object
  \<open>{ success: false }\<close> is \<open>None\<close>, and \<open>{ success: true, row, col, direction }\<close>
  is \<open>Some (row, col, direction)\<close>; with it comes the grid as the call leaves it.
\<close>

definition tryPlaceWord ::
  "Grid \<Rightarrow> Entry \<Rightarrow> int \<Rightarrow> int \<Rightarrow> Direction \<Rightarrow> nat
     \<Rightarrow> error + ((int \<times> int \<times> Direction) option \<times> Grid)" where
  "tryPlaceWord grid entry row col direction indexInWord =
     (if length (entry_answer entry) = 0 then Inr (None, grid)
      else if direction = Across then
        (if col - int indexInWord < 0
            \<or> col - int indexInWord + int (length (entry_answer entry)) - 1 \<ge> int (length grid)
         then Inr (None, grid)
         else
           (case checkLine grid (entry_answer entry) row (col - int indexInWord) 0 1 0 of
              Inl e \<Rightarrow> Inl e
            | Inr ok \<Rightarrow>
                if \<not> ok then Inr (None, grid)
                else
                  (case writeWord grid (entry_answer entry) row (col - int indexInWord) 0 1 0 of
                     Inl e \<Rightarrow> Inl e
                   | Inr grid' \<Rightarrow> Inr (Some (row, col - int indexInWord, direction), grid'))))
      else
        (if row - int indexInWord < 0
            \<or> row - int indexInWord + int (length (entry_answer entry)) - 1 \<ge> int (length grid)
         then Inr (None, grid)
         else
           (case checkLine grid (entry_answer entry) (row - int indexInWord) col 1 0 0 of
              Inl e \<Rightarrow> Inl e
            | Inr ok \<Rightarrow>
                if \<not> ok then Inr (None, grid)
                else
                  (case writeWord grid (entry_answer entry) (row - int indexInWord) col 1 0 0 of
                     Inl e \<Rightarrow> Inl e
                   | Inr grid' \<Rightarrow> Inr (Some (row - int indexInWord, col, direction), grid')))))"

text \<open>
  The crossing search of \<open>generateCrossword\<close> for one entry: the loops over \<open>c\<close>,
  over \<open>r\<close> and over the letter index \<open>wi\<close>, each left as soon as \<open>placed\<close> is
  set. A result \<open>Some (row, col, direction)\<close> is what the source then stores in the
  entry.
\<close>

function scanCols ::
  "Grid \<Rightarrow> Entry \<Rightarrow> nat \<Rightarrow> nat \<Rightarrow> nat \<Rightarrow> nat
     \<Rightarrow> error + ((int \<times> int \<times> Direction) option \<times> Grid)" where
  "scanCols grid entry sz wi r c =
     (if c < sz then
        (case getCell grid (int r) (int c) of
           Inl e \<Rightarrow> Inl e
         | Inr cell \<Rightarrow>
             if cell = Str [entry_answer entry ! wi] then
               (case tryPlaceWord grid entry (int r) (int c) Across wi of
                  Inl e \<Rightarrow> Inl e
                | Inr (Some (row, col, d), grid') \<Rightarrow> Inr (Some (row, col, Across), grid')
                | Inr (None, grid') \<Rightarrow>
                    (case tryPlaceWord grid' entry (int r) (int c) Down wi of
                       Inl e \<Rightarrow> Inl e
                     | Inr (Some (row, col, d), grid'') \<Rightarrow> Inr (Some (row, col, Down), grid'')
                     | Inr (None, grid'') \<Rightarrow> scanCols grid'' entry sz wi r (c + 1)))
             else scanCols grid entry sz wi r (c + 1))
      else Inr (None, grid))"
  by pat_completeness auto
termination
  by (relation "measure (\<lambda>(grid, entry, sz, wi, r, c). sz - c)") auto

declare scanCols.simps [simp del]

function scanRows ::
  "Grid \<Rightarrow> Entry \<Rightarrow> nat \<Rightarrow> nat \<Rightarrow> nat
     \<Rightarrow> error + ((int \<times> int \<times> Direction) option \<times> Grid)" where
  "scanRows grid entry sz wi r =
     (if r < sz then
        (case scanCols grid entry sz wi r 0 of
           Inl e \<Rightarrow> Inl e
         | Inr (Some res, grid') \<Rightarrow> Inr (Some res, grid')
         | Inr (None, grid') \<Rightarrow> scanRows grid' entry sz wi (r + 1))
      else Inr (None, grid))"
  by pat_completeness auto
termination
  by (relation "measure (\<lambda>(grid, entry, sz, wi, r). sz - r)") auto

declare scanRows.simps [simp del]

function scanLetters ::
  "Grid \<Rightarrow> Entry \<Rightarrow> nat \<Rightarrow> nat
     \<Rightarrow> error + ((int \<times> int \<times> Direction) option \<times> Grid)" where
  "scanLetters grid entry sz wi =
     (if wi < length (entry_answer entry) then
        (case scanRows grid entry sz wi 0 of
           Inl e \<Rightarrow> Inl e
         | Inr (Some res, grid') \<Rightarrow> Inr (Some res, grid')
         | Inr (None, grid') \<Rightarrow> scanLetters grid' entry sz (wi + 1))
      else Inr (None, grid))"
  by pat_completeness auto
termination
  by (relation "measure (\<lambda>(grid, entry, sz, wi). length (entry_answer entry) - wi)") auto

declare scanLetters.simps [simp del]

text \<open>The loop \<open>for (idx = 1; idx < sortedEntries.length; idx++)\<close>, entered at
  \<open>idx\<close>; the entries are updated in place.\<close>

function placeRemaining ::
  "Grid \<Rightarrow> Entry list \<Rightarrow> nat \<Rightarrow> nat \<Rightarrow> error + (Grid \<times> Entry list)" where
  "placeRemaining grid entries sz idx =
     (if idx < length entries then
        (if entry_answer (entries ! idx) = [] then placeRemaining grid entries sz (idx + 1)
         else
           (case scanLetters grid (entries ! idx) sz 0 of
              Inl e \<Rightarrow> Inl e
            | Inr (None, grid') \<Rightarrow> placeRemaining grid' entries sz (idx + 1)
            | Inr (Some (row, col, d), grid') \<Rightarrow>
                placeRemaining grid'
                  (entries[idx := (entries ! idx)
                     \<lparr>entry_placed := True, entry_row := Some row, entry_col := Some col,
                      entry_direction := Some d\<rparr>])
                  sz (idx + 1)))
      else Inr (grid, entries))"
  by pat_completeness auto
termination
  by (relation "measure (\<lambda>(grid, entries, sz, idx). length entries - idx)") auto

declare placeRemaining.simps [simp del]

text \<open>
  The numbering pass. Every row index it reads is inside \<open>[0, size)\<close> by the
  source's own guards (\<open>r === 0 ||\<close>, \<open>r + 1 < size &&\<close>, the loop bounds, with
  \<open>size = grid.length\<close>), so its reads are \<open>row[c]\<close> reads of existing rows; and
  \<open>numbers\<close> is the fresh \<open>size\<close> by \<open>size\<close> array, written inside the loop bounds.
\<close>

definition leftBlocked :: "Grid \<Rightarrow> nat \<Rightarrow> nat \<Rightarrow> bool" where
  "leftBlocked grid r c = (c = 0 \<or> getElem (grid ! r) (int c - 1) = Null)"

definition rightLetter :: "Grid \<Rightarrow> nat \<Rightarrow> nat \<Rightarrow> bool" where
  "rightLetter grid r c = (c + 1 < length grid \<and> getElem (grid ! r) (int c + 1) \<noteq> Null)"

definition topBlocked :: "Grid \<Rightarrow> nat \<Rightarrow> nat \<Rightarrow> bool" where
  "topBlocked grid r c = (r = 0 \<or> getElem (grid ! (r - 1)) (int c) = Null)"

definition bottomLetter :: "Grid \<Rightarrow> nat \<Rightarrow> nat \<Rightarrow> bool" where
  "bottomLetter grid r c = (r + 1 < length grid \<and> getElem (grid ! (r + 1)) (int c) \<noteq> Null)"

definition startsAcross :: "Grid \<Rightarrow> nat \<Rightarrow> nat \<Rightarrow> bool" where
  "startsAcross grid r c = (leftBlocked grid r c \<and> rightLetter grid r c)"

definition startsDown :: "Grid \<Rightarrow> nat \<Rightarrow> nat \<Rightarrow> bool" where
  "startsDown grid r c = (topBlocked grid r c \<and> bottomLetter grid r c)"

text \<open>The clue pushed for a start at \<open>(r, c)\<close> in direction \<open>d\<close>, if an entry is
  found.\<close>

definition clueFor :: "Entry list \<Rightarrow> nat \<Rightarrow> nat \<Rightarrow> Direction \<Rightarrow> nat \<Rightarrow> Clue list" where
  "clueFor entries r c d clueNumber =
     (case find (\<lambda>e. entry_placed e \<and> entry_row e = Some (int r) \<and> entry_col e = Some (int c)
                      \<and> entry_direction e = Some d) entries of
        None \<Rightarrow> []
      | Some entry \<Rightarrow>
          [\<lparr>clue_number = clueNumber, clue_clue = entry_clue entry,
            clue_answer = entry_answer entry\<rparr>])"

text \<open>The state of the pass: \<open>numbers\<close>, \<open>acrossClues\<close>, \<open>downClues\<close>,
  \<open>clueNumber\<close>.\<close>

type_synonym NumState = "nat option list list \<times> Clue list \<times> Clue list \<times> nat"

function numberCols :: "Grid \<Rightarrow> Entry list \<Rightarrow> nat \<Rightarrow> nat \<Rightarrow> NumState \<Rightarrow> NumState" where
  "numberCols grid entries r c st =
     (if c < length grid then
        (case st of (numbers, acrossClues, downClues, clueNumber) \<Rightarrow>
           if \<not> truthy (getElem (grid ! r) (int c)) then numberCols grid entries r (c + 1) st
           else if startsAcross grid r c \<or> startsDown grid r c then
             numberCols grid entries r (c + 1)
               (numbers[r := (numbers ! r)[c := Some clueNumber]],
                acrossClues @ (if startsAcross grid r c
                               then clueFor entries r c Across clueNumber else []),
                downClues @ (if startsDown grid r c
                             then clueFor entries r c Down clueNumber else []),
                clueNumber + 1)
           else numberCols grid entries r (c + 1) st)
      else st)"
  by pat_completeness auto
termination
  by (relation "measure (\<lambda>(grid, entries, r, c, st). length grid - c)") auto

declare numberCols.simps [simp del]

function numberRows :: "Grid \<Rightarrow> Entry list \<Rightarrow> nat \<Rightarrow> NumState \<Rightarrow> NumState" where
  "numberRows grid entries r st =
     (if r < length grid then numberRows grid entries (r + 1) (numberCols grid entries r 0 st)
      else st)"
  by pat_completeness auto
termination
  by (relation "measure (\<lambda>(grid, entries, r, st). length grid - r)") auto

declare numberRows.simps [simp del]

definition numberAndBuildClues ::
  "Grid \<Rightarrow> Entry list \<Rightarrow> nat option list list \<times> Clue list \<times> Clue list" where
  "numberAndBuildClues grid entries =
     (case numberRows grid entries 0 (createEmptyNumbers (length grid), [], [], 1) of
        (numbers, acrossClues, downClues, clueNumber) \<Rightarrow> (numbers, acrossClues, downClues))"

text \<open>\<open>.sort((a, b) => b.answer.length - a.answer.length)\<close>: a stable sort, longest
  answer first.\<close>

definition sortByLength :: "Entry list \<Rightarrow> Entry list" where
  "sortByLength es = sort_key (\<lambda>e. - int (length (entry_answer e))) es"

text \<open>
  \<open>generateCrossword(entriesInput)\<close>. The source mutates the entry objects; the
  result here is the returned puzzle together with \<open>sortedEntries\<close> as the call
  leaves them.
\<close>

definition generateCrossword ::
  "(nat \<Rightarrow> nat) \<Rightarrow> Entry list \<Rightarrow> error + (CrosswordPuzzle \<times> Entry list)" where
  "generateCrossword rnd entriesInput =
     (case sortByLength (shuffleArray rnd entriesInput) of
        [] \<Rightarrow>
          Inr (\<lparr>puzzle_grid = createEmptyGrid_cw GRID_SIZE,
                puzzle_numbers = createEmptyNumbers GRID_SIZE,
                puzzle_acrossClues = [], puzzle_downClues = [], puzzle_unused = []\<rparr>, [])
      | first # others \<Rightarrow>
          (case writeWord (createEmptyGrid_cw GRID_SIZE) (entry_answer first)
                  (int (GRID_SIZE div 2))
                  (max 0 ((int GRID_SIZE - int (length (entry_answer first))) div 2))
                  0 1 0 of
             Inl e \<Rightarrow> Inl e
           | Inr grid \<Rightarrow>
               (case placeRemaining grid
                       (first\<lparr>entry_placed := True,
                              entry_row := Some (int (GRID_SIZE div 2)),
                              entry_col := Some (max 0 ((int GRID_SIZE
                                             - int (length (entry_answer first))) div 2)),
                              entry_direction := Some Across\<rparr> # others)
                       GRID_SIZE 1 of
                  Inl e \<Rightarrow> Inl e
                | Inr (grid', entries) \<Rightarrow>
                    (case numberAndBuildClues grid' entries of
                       (numbers, acrossClues, downClues) \<Rightarrow>
                         Inr (\<lparr>puzzle_grid = grid', puzzle_numbers = numbers,
                               puzzle_acrossClues = acrossClues,
                               puzzle_downClues = downClues,
                               puzzle_unused = filter (\<lambda>e. \<not> entry_placed e) entries\<rparr>,
                              entries)))))"

section \<open>Bingo\<close>

text \<open>The decimal digits of a number, as the template literal prints it.\<close>

function showNat :: "nat \<Rightarrow> string" where
  "showNat n =
     (if n < 10 then [char_of (48 + n)] else showNat (n div 10) @ [char_of (48 + n mod 10)])"
  by pat_completeness auto
termination
  by (relation "measure (\<lambda>n. n)") auto

declare showNat.simps [simp del]

definition SIZE :: nat where
  "SIZE = 5"

definition USE_FREE_CENTER :: bool where
  "USE_FREE_CENTER = True"

definition neededWords :: nat where
  "neededWords = SIZE * SIZE - (if USE_FREE_CENTER then 1 else 0)"

definition cleanedWords :: "string list \<Rightarrow> string list" where
  "cleanedWords rawWords = filter (\<lambda>w. length w > 0) (map trim rawWords)"

text \<open>\<open>selected[wordIndex]\<close>, \<open>undefined\<close> past the end.\<close>

definition selectedAt :: "string list \<Rightarrow> nat \<Rightarrow> jsval" where
  "selectedAt selected i = (if i < length selected then Str (selected ! i) else Undefined)"

text \<open>The fill loops of \<open>generateBingoGrid\<close>; the state is the grid and
  \<open>wordIndex\<close>.\<close>

function bingoCols ::
  "string list \<Rightarrow> Grid \<Rightarrow> nat \<Rightarrow> nat \<Rightarrow> nat \<Rightarrow> error + (Grid \<times> nat)" where
  "bingoCols selected grid r c wordIndex =
     (if c < SIZE then
        (if USE_FREE_CENTER \<and> r = SIZE div 2 \<and> c = SIZE div 2 then
           (case setCell grid (int r) (int c) (Str ''FREE'') of
              Inl e \<Rightarrow> Inl e
            | Inr grid' \<Rightarrow> bingoCols selected grid' r (c + 1) wordIndex)
         else
           (case setCell grid (int r) (int c) (selectedAt selected wordIndex) of
              Inl e \<Rightarrow> Inl e
            | Inr grid' \<Rightarrow> bingoCols selected grid' r (c + 1) (wordIndex + 1)))
      else Inr (grid, wordIndex))"
  by pat_completeness auto
termination
  by (relation "measure (\<lambda>(selected, grid, r, c, wordIndex). SIZE - c)") auto

declare bingoCols.simps [simp del]

function bingoRows ::
  "string list \<Rightarrow> Grid \<Rightarrow> nat \<Rightarrow> nat \<Rightarrow> error + (Grid \<times> nat)" where
  "bingoRows selected grid r wordIndex =
     (if r < SIZE then
        (case bingoCols selected grid r 0 wordIndex of
           Inl e \<Rightarrow> Inl e
         | Inr (grid', wordIndex') \<Rightarrow> bingoRows selected grid' (r + 1) wordIndex')
      else Inr (grid, wordIndex))"
  by pat_completeness auto
termination
  by (relation "measure (\<lambda>(selected, grid, r, wordIndex). SIZE - r)") auto

declare bingoRows.simps [simp del]

definition bingoMessage :: string where
  "bingoMessage =
     ''You need at least '' @ showNat neededWords @ '' words for a 5'' @ [CHR 0xD7]
       @ ''5 card (center is FREE).''"

definition generateBingoGrid :: "(nat \<Rightarrow> nat) \<Rightarrow> string list \<Rightarrow> error + Grid" where
  "generateBingoGrid rnd rawWords =
     (if length (cleanedWords rawWords) < neededWords then Inl (Error bingoMessage)
      else
        (case bingoRows (take neededWords (shuffleArray rnd (cleanedWords rawWords)))
                (replicate SIZE (replicate SIZE (Str []))) 0 0 of
           Inl e \<Rightarrow> Inl e
         | Inr (grid, wordIndex) \<Rightarrow> Inr grid))"

text \<open>The condition the specification states for one index of the word.\<close>

definition cellFits :: "Grid \<Rightarrow> string \<Rightarrow> int \<Rightarrow> int \<Rightarrow> int \<Rightarrow> int \<Rightarrow> nat \<Rightarrow> bool" where
  "cellFits grid word row col dx dy i =
     (0 \<le> row + dx * int i \<and> row + dx * int i < int (length grid)
      \<and> 0 \<le> col + dy * int i \<and> col + dy * int i < int (length grid)
      \<and> (getCell grid (row + dx * int i) (col + dy * int i) = Inr (Str [])
         \<or> getCell grid (row + dx * int i) (col + dy * int i) = Inr (Str [word ! i])))"

section \<open>Predicates of the statements\<close>

text \<open>The cell \<open>(r, c)\<close> exists: an element of an existing row.\<close>

definition inRange :: "Grid \<Rightarrow> int \<Rightarrow> int \<Rightarrow> bool" where
  "inRange grid r c =
     (0 \<le> r \<and> r < int (length grid) \<and> 0 \<le> c \<and> c < int (length (grid ! nat r)))"

text \<open>The cell \<open>(r, c)\<close> lies on the line of the word from the anchor \<open>(row, col)\<close> in
  direction \<open>(dx, dy)\<close>.\<close>

definition onLine :: "string \<Rightarrow> int \<Rightarrow> int \<Rightarrow> int \<Rightarrow> int \<Rightarrow> int \<Rightarrow> int \<Rightarrow> bool" where
  "onLine word row col dx dy r c =
     (\<exists>i<length word. r = row + dx * int i \<and> c = col + dy * int i)"

text \<open>
  What a successful \<open>placeWord\<close> has done to the grid: the rows keep their lengths,
  the cells off the line keep their values, and each cell on the line holds the letter
  of an index of the word that lands on it, the letter of its own index when the
  direction is not \<open>(0, 0)\<close>.
\<close>

definition writtenAlong :: "Grid \<Rightarrow> Grid \<Rightarrow> string \<Rightarrow> int \<Rightarrow> int \<Rightarrow> int \<Rightarrow> int \<Rightarrow> bool" where
  "writtenAlong grid grid' word row col dx dy =
     (map length grid' = map length grid
      \<and> (\<forall>r c. \<not> onLine word row col dx dy r c \<longrightarrow> getCell grid' r c = getCell grid r c)
      \<and> (\<forall>i<length word. \<exists>j<length word.
            row + dx * int j = row + dx * int i \<and> col + dy * int j = col + dy * int i
            \<and> getCell grid' (row + dx * int i) (col + dy * int i) = Inr (Str [word ! j]))
      \<and> (dx \<noteq> 0 \<or> dy \<noteq> 0 \<longrightarrow>
           (\<forall>i<length word.
              getCell grid' (row + dx * int i) (col + dy * int i) = Inr (Str [word ! i]))))"

text \<open>The crossword's check of one cell of a line: \<open>null\<close> or the word's letter.\<close>

definition lineOk :: "Grid \<Rightarrow> string \<Rightarrow> int \<Rightarrow> int \<Rightarrow> int \<Rightarrow> int \<Rightarrow> nat \<Rightarrow> bool" where
  "lineOk grid word r0 c0 dr dc j =
     (getCell grid (r0 + dr * int j) (c0 + dc * int j) = Inr Null
      \<or> getCell grid (r0 + dr * int j) (c0 + dc * int j) = Inr (Str [word ! j]))"

text \<open>The step and the first cell of the line that \<open>tryPlaceWord\<close> checks and
  writes, and what a successful call has done: checked every cell of the line in the
  grid as it was, then written the word.\<close>

definition lineStep :: "Direction \<Rightarrow> int \<times> int" where
  "lineStep d = (if d = Across then (0, 1) else (1, 0))"

definition lineStart :: "Direction \<Rightarrow> int \<Rightarrow> int \<Rightarrow> nat \<Rightarrow> int \<times> int" where
  "lineStart d row col indexInWord =
     (if d = Across then (row, col - int indexInWord) else (row - int indexInWord, col))"

definition committed :: "Grid \<Rightarrow> Grid \<Rightarrow> string \<Rightarrow> int \<times> int \<Rightarrow> int \<times> int \<Rightarrow> bool" where
  "committed grid grid' word start step =
     ((\<forall>j<length word. lineOk grid word (fst start) (snd start) (fst step) (snd step) j)
      \<and> writeWord grid word (fst start) (snd start) (fst step) (snd step) 0 = Inr grid')"

text \<open>An entry for the concrete instances below.\<close>

definition demoEntry :: Entry where
  "demoEntry = \<lparr>entry_id = 0, entry_answer = ''CAT'', entry_clue = ''pet'',
      entry_placed = False, entry_row = None, entry_col = None, entry_direction = None\<rparr>"

text \<open>A grid of \<open>sz\<close> rows of \<open>sz\<close> cells.\<close>

definition squareGrid :: "nat \<Rightarrow> Grid \<Rightarrow> bool" where
  "squareGrid sz grid = (length grid = sz \<and> (\<forall>row\<in>set grid. length row = sz))"

text \<open>The fill of \<open>generatePuzzle\<close>: a cell keeps its value, or it was falsy and now
  holds a letter of the alphabet.\<close>

definition filledBy :: "Grid \<Rightarrow> Grid \<Rightarrow> bool" where
  "filledBy grid grid' =
     (\<forall>r c. getCell grid' r c = getCell grid r c
        \<or> ((\<exists>v. getCell grid r c = Inr v \<and> \<not> truthy v)
            \<and> (\<exists>ch\<in>set alphabet. getCell grid' r c = Inr (Str [ch]))))"

text \<open>Every existing cell is empty or holds one character of a word of \<open>W\<close>.\<close>

definition madeOf :: "string set \<Rightarrow> Grid \<Rightarrow> bool" where
  "madeOf W grid =
     (\<forall>r c. inRange grid r c \<longrightarrow>
        getCell grid r c = Inr (Str [])
        \<or> (\<exists>w\<in>W. \<exists>ch\<in>set w. getCell grid r c = Inr (Str [ch])))"

text \<open>The cells of a 5 by 5 grid other than the centre, in row-major order: the centre
  is the 13th cell.\<close>

definition nonCenterCells :: "Grid \<Rightarrow> jsval list" where
  "nonCenterCells grid = take 12 (concat grid) @ drop 13 (concat grid)"

text \<open>The word list the bingo page starts with.\<close>

definition defaultWords :: "string list" where
  "defaultWords =
     [''Apple'', ''Banana'', ''Cherry'', ''Date'', ''Elderberry'', ''Fig'', ''Grape'',
      ''Honeydew'', ''Kiwi'', ''Lemon'', ''Mango'', ''Nectarine'', ''Orange'', ''Papaya'',
      ''Quince'', ''Raspberry'', ''Strawberry'', ''Tomato'', ''Ugli Fruit'', ''Vanilla'',
      ''Watermelon'', ''Xigua'', ''Yam'', ''Zucchini'']"

text \<open>One step of the crossword's construction: the number of rows stays, a cell that
  held a value other than \<open>null\<close> keeps it, and a cell that changes holds a letter.\<close>

definition cwStep :: "Grid \<Rightarrow> Grid \<Rightarrow> bool" where
  "cwStep grid grid' =
     (length grid' = length grid
      \<and> (\<forall>r c v. getCell grid r c = Inr v \<and> v \<noteq> Null \<longrightarrow> getCell grid' r c = Inr v)
      \<and> (\<forall>r c. getCell grid' r c = getCell grid r c
             \<or> (\<exists>ch. getCell grid' r c = Inr (Str [ch]))))"

text \<open>An entry whose answer has 16 letters, one more than the grid is wide.\<close>

definition longEntry :: Entry where
  "longEntry = \<lparr>entry_id = 0, entry_answer = ''INTERNATIONALIZE'',
      entry_clue = ''Prepare for many locales'', entry_placed = False, entry_row = None,
      entry_col = None, entry_direction = None\<rparr>"

definition birdEntry :: Entry where
  "birdEntry = \<lparr>entry_id = 1, entry_answer = ''BIRD'', entry_clue = ''Animal that can fly'',
      entry_placed = False, entry_row = None, entry_col = None, entry_direction = None\<rparr>"

text \<open>The cells that precede \<open>(r, c)\<close> in row-major order in a grid of side \<open>sz\<close>: the
  rows above, then the cells of row \<open>r\<close> left of column \<open>c\<close>.\<close>

definition cellsBefore :: "nat \<Rightarrow> nat \<Rightarrow> nat \<Rightarrow> (nat \<times> nat) list" where
  "cellsBefore sz r c =
     concat (map (\<lambda>r'. map (Pair r') [0..<sz]) [0..<r]) @ map (Pair r) [0..<c]"

text \<open>The condition under which the source assigns \<open>numbers[r][c]\<close>.\<close>

definition numberedByCode :: "Grid \<Rightarrow> nat \<times> nat \<Rightarrow> bool" where
  "numberedByCode grid =
     (\<lambda>(r, c). truthy (getElem (grid ! r) (int c))
                \<and> (startsAcross grid r c \<or> startsDown grid r c))"

text \<open>The number of cells before \<open>(r, c)\<close> that satisfy \<open>P\<close>.\<close>

definition countBefore :: "(nat \<times> nat \<Rightarrow> bool) \<Rightarrow> nat \<Rightarrow> nat \<Rightarrow> nat \<Rightarrow> nat" where
  "countBefore P sz r c = length (filter P (cellsBefore sz r c))"

text \<open>
  The numbering rule in the specification's words. A cell is filled when it lies in
  the grid and holds a letter; it starts an across entry when there is no filled cell
  to its left and a filled cell to its right, and a down entry when there is no filled
  cell above and a filled cell below.
\<close>

definition filled :: "Grid \<Rightarrow> nat \<Rightarrow> nat \<Rightarrow> bool" where
  "filled grid r c =
     (r < length grid \<and> c < length grid
      \<and> (case getCell grid (int r) (int c) of Inr (Str s) \<Rightarrow> s \<noteq> [] | _ \<Rightarrow> False))"

definition spec_startsAcross :: "Grid \<Rightarrow> nat \<Rightarrow> nat \<Rightarrow> bool" where
  "spec_startsAcross grid r c = (\<not> (0 < c \<and> filled grid r (c - 1)) \<and> filled grid r (c + 1))"

definition spec_startsDown :: "Grid \<Rightarrow> nat \<Rightarrow> nat \<Rightarrow> bool" where
  "spec_startsDown grid r c = (\<not> (0 < r \<and> filled grid (r - 1) c) \<and> filled grid (r + 1) c)"

definition spec_numbered :: "Grid \<Rightarrow> nat \<times> nat \<Rightarrow> bool" where
  "spec_numbered grid =
     (\<lambda>(r, c). filled grid r c \<and> (spec_startsAcross grid r c \<or> spec_startsDown grid r c))"

text \<open>A crossword grid: every cell of the square is \<open>null\<close> or filled.\<close>

definition letterGrid :: "Grid \<Rightarrow> bool" where
  "letterGrid grid =
     (\<forall>r<length grid. \<forall>c<length grid.
        getCell grid (int r) (int c) = Inr Null \<or> filled grid r c)"

text \<open>A grid with CAT across and TOP down, for the concrete instance below.\<close>

definition demoGrid :: Grid where
  "demoGrid = [[Str ''C'', Str ''A'', Str ''T''], [Null, Null, Str ''O''],
               [Null, Null, Str ''P'']]"

section \<open>Properties\<close>

lemma canPlaceWord_loop_iff:
  "canPlaceWord_loop grid word row col dx dy i =
     Inr (\<forall>j. i \<le> j \<and> j < length word \<longrightarrow> cellFits grid word row col dx dy j)"
proof (induction grid word row col dx dy i rule: canPlaceWord_loop.induct)
  case (1 grid word row col dx dy i)
  show ?case
  proof (cases "i < length word")
    case False
    then show ?thesis by (subst canPlaceWord_loop.simps) auto
  next
    case True
    show ?thesis
    proof (cases "cellFits grid word row col dx dy i")
      case False
      then have "canPlaceWord_loop grid word row col dx dy i = Inr False"
        using True
        by (subst canPlaceWord_loop.simps) (auto simp: cellFits_def getCell_def)
      moreover have "\<not> (\<forall>j. i \<le> j \<and> j < length word \<longrightarrow> cellFits grid word row col dx dy j)"
        using False True by auto
      ultimately show ?thesis by simp
    next
      case fits: True
      then have step: "canPlaceWord_loop grid word row col dx dy i =
                 canPlaceWord_loop grid word row col dx dy (i + 1)"
        using True
        by (subst canPlaceWord_loop.simps) (auto simp: cellFits_def getCell_def)
      have inb: "\<not> (row + dx * int i < 0 \<or> int (length grid) \<le> row + dx * int i
                  \<or> col + dy * int i < 0 \<or> int (length grid) \<le> col + dy * int i)"
        using fits by (auto simp: cellFits_def)
      obtain cell where c: "getCell grid (row + dx * int i) (col + dy * int i) = Inr cell"
        and ok: "\<not> (cell \<noteq> Str [] \<and> cell \<noteq> Str [word ! i])"
        using fits by (auto simp: cellFits_def)
      have ih: "canPlaceWord_loop grid word row col dx dy (i + 1) =
            Inr (\<forall>j. i + 1 \<le> j \<and> j < length word \<longrightarrow> cellFits grid word row col dx dy j)"
        using "1.IH" [OF True inb c ok] .
      have "(\<forall>j. i + 1 \<le> j \<and> j < length word \<longrightarrow> cellFits grid word row col dx dy j)
            = (\<forall>j. i \<le> j \<and> j < length word \<longrightarrow> cellFits grid word row col dx dy j)"
        using fits by (metis Suc_eq_plus1 Suc_leI le_neq_implies_less add_leD1 le_refl)
      with step ih show ?thesis by simp
    qed
  qed
qed

lemma getElem_Str_range: "getElem xs c = Str s \<Longrightarrow> 0 \<le> c \<and> c < int (length xs)"
  by (auto simp: getElem_def split: if_splits)

lemma getElem_Null_range: "getElem xs c = Null \<Longrightarrow> 0 \<le> c \<and> c < int (length xs)"
  by (auto simp: getElem_def split: if_splits)

lemma getCell_Str_inRange: "getCell grid r c = Inr (Str s) \<Longrightarrow> inRange grid r c"
  by (auto simp: getCell_def inRange_def dest: getElem_Str_range split: if_splits)

lemma getCell_Null_inRange: "getCell grid r c = Inr Null \<Longrightarrow> inRange grid r c"
  by (auto simp: getCell_def inRange_def dest: getElem_Null_range split: if_splits)

lemma setCell_inRange:
  assumes "inRange grid r c"
  shows "setCell grid r c v = Inr (grid[nat r := (grid ! nat r)[nat c := v]])"
  using assms by (auto simp: setCell_def inRange_def setElem_def)

lemma map_length_update_inRange:
  "map length (grid[r := (grid ! r)[c := v]]) = map length grid"
proof (cases "r < length grid")
  case True
  then have "(map length grid)[r := length (grid ! r)] = map length grid"
    by (metis list_update_id nth_map)
  then show ?thesis by (simp add: map_update)
next
  case False
  then have "grid[r := (grid ! r)[c := v]] = grid" by (simp add: list_update_beyond)
  then show ?thesis by simp
qed

lemma inRange_cong: "map length g' = map length g \<Longrightarrow> inRange g' r c = inRange g r c"
proof -
  assume a: "map length g' = map length g"
  then have l: "length g' = length g" by (metis length_map)
  have "\<And>i. i < length g \<Longrightarrow> length (g' ! i) = length (g ! i)"
    using a l by (metis nth_map)
  then show ?thesis using l by (auto simp: inRange_def)
qed

lemma getCell_update:
  assumes "inRange grid r c"
  shows "getCell (grid[nat r := (grid ! nat r)[nat c := v]]) r' c' =
           (if r' = r \<and> c' = c then Inr v else getCell grid r' c')"
proof (cases "0 \<le> r' \<and> r' < int (length grid)")
  case False
  then show ?thesis using assms by (auto simp: getCell_def inRange_def)
next
  case True
  show ?thesis
  proof (cases "r' = r")
    case False
    then have "nat r' \<noteq> nat r" using True assms by (auto simp: inRange_def)
    then show ?thesis using True False by (simp add: getCell_def)
  next
    case rr: True
    then show ?thesis using True assms
      by (auto simp: getCell_def inRange_def getElem_def nth_list_update)
  qed
qed

lemma writeWord_cells:
  assumes "\<forall>j. i \<le> j \<and> j < length word \<longrightarrow> inRange grid (row + dx * int j) (col + dy * int j)"
  shows "\<exists>grid'. writeWord grid word row col dx dy i = Inr grid'
           \<and> map length grid' = map length grid
           \<and> (\<forall>r c. getCell grid' r c = getCell grid r c
                 \<or> (\<exists>j. i \<le> j \<and> j < length word \<and> r = row + dx * int j \<and> c = col + dy * int j
                        \<and> getCell grid' r c = Inr (Str [word ! j])))"
  using assms
proof (induction grid word row col dx dy i rule: writeWord.induct)
  case (1 grid word row col dx dy i)
  show ?case
  proof (cases "i < length word")
    case False
    then show ?thesis by (subst writeWord.simps) simp
  next
    case True
    let ?r = "row + dx * int i" and ?c = "col + dy * int i"
    let ?g1 = "grid[nat ?r := (grid ! nat ?r)[nat ?c := Str [word ! i]]]"
    have ir: "inRange grid ?r ?c" using "1.prems" True by auto
    have sc: "setCell grid ?r ?c (Str [word ! i]) = Inr ?g1"
      using ir by (rule setCell_inRange)
    have ml: "map length ?g1 = map length grid" by (rule map_length_update_inRange)
    have pre: "\<forall>j. i + 1 \<le> j \<and> j < length word \<longrightarrow> inRange ?g1 (row + dx * int j) (col + dy * int j)"
      using "1.prems" inRange_cong [OF ml] by auto
    from "1.IH" [OF True sc pre] obtain grid' where
      w: "writeWord ?g1 word row col dx dy (i + 1) = Inr grid'"
      and l: "map length grid' = map length ?g1"
      and cells: "\<forall>r c. getCell grid' r c = getCell ?g1 r c
                 \<or> (\<exists>j. i + 1 \<le> j \<and> j < length word \<and> r = row + dx * int j \<and> c = col + dy * int j
                        \<and> getCell grid' r c = Inr (Str [word ! j]))"
      by blast
    have w0: "writeWord grid word row col dx dy i = Inr grid'"
      using True sc w by (subst writeWord.simps) simp
    have "getCell grid' r c = getCell grid r c
                 \<or> (\<exists>j. i \<le> j \<and> j < length word \<and> r = row + dx * int j \<and> c = col + dy * int j
                        \<and> getCell grid' r c = Inr (Str [word ! j]))" for r c
    proof (cases "\<exists>j. i + 1 \<le> j \<and> j < length word \<and> r = row + dx * int j \<and> c = col + dy * int j
                        \<and> getCell grid' r c = Inr (Str [word ! j])")
      case True
      then obtain j where "i + 1 \<le> j" "j < length word" "r = row + dx * int j" "c = col + dy * int j"
           "getCell grid' r c = Inr (Str [word ! j])" by blast
      then have "i \<le> j \<and> j < length word \<and> r = row + dx * int j \<and> c = col + dy * int j
                        \<and> getCell grid' r c = Inr (Str [word ! j])" by simp
      then show ?thesis by blast
    next
      case False
      then have e: "getCell grid' r c = getCell ?g1 r c" using cells by blast
      show ?thesis
      proof (cases "r = ?r \<and> c = ?c")
        case True
        then have "getCell grid' r c = Inr (Str [word ! i])"
          using e getCell_update [OF ir] by simp
        then show ?thesis using True \<open>i < length word\<close> by blast
      next
        case False
        then have "getCell grid' r c = getCell grid r c"
          using e getCell_update [OF ir, of "Str [word ! i]" r c] by auto
        then show ?thesis by simp
      qed
    qed
    then show ?thesis using w0 l ml by simp
  qed
qed


lemma cellFits_inRange:
  "cellFits grid word row col dx dy j \<Longrightarrow> inRange grid (row + dx * int j) (col + dy * int j)"
  unfolding cellFits_def using getCell_Str_inRange by blast

lemma line_inj:
  assumes "dx \<noteq> 0 \<or> dy \<noteq> 0"
    and "row + dx * int j' = row + dx * int j" and "col + dy * int j' = col + dy * int j"
  shows "j' = j"
  using assms by auto

lemma writeWord_line:
  assumes "\<forall>j. i \<le> j \<and> j < length word \<longrightarrow> inRange grid (row + dx * int j) (col + dy * int j)"
    and "writeWord grid word row col dx dy i = Inr grid'"
    and "i \<le> j" and "j < length word"
  shows "\<exists>j'. i \<le> j' \<and> j' < length word \<and> row + dx * int j' = row + dx * int j
            \<and> col + dy * int j' = col + dy * int j
            \<and> getCell grid' (row + dx * int j) (col + dy * int j) = Inr (Str [word ! j'])"
  using assms
proof (induction grid word row col dx dy i rule: writeWord.induct)
  case (1 grid word row col dx dy i)
  let ?r = "row + dx * int i" and ?c = "col + dy * int i"
  let ?g1 = "grid[nat ?r := (grid ! nat ?r)[nat ?c := Str [word ! i]]]"
  have lt: "i < length word" using "1.prems" by simp
  have ir: "inRange grid ?r ?c" using "1.prems" lt by auto
  have sc: "setCell grid ?r ?c (Str [word ! i]) = Inr ?g1"
    using ir by (rule setCell_inRange)
  have ml: "map length ?g1 = map length grid" by (rule map_length_update_inRange)
  have pre: "\<forall>j. i + 1 \<le> j \<and> j < length word \<longrightarrow> inRange ?g1 (row + dx * int j) (col + dy * int j)"
    using "1.prems"(1) inRange_cong [OF ml] by auto
  have w1: "writeWord ?g1 word row col dx dy (i + 1) = Inr grid'"
    using "1.prems"(2) lt sc by (subst (asm) writeWord.simps) simp
  show ?case
  proof (cases "j = i")
    case False
    then have "i + 1 \<le> j" using "1.prems" by simp
    from "1.IH" [OF lt sc pre w1 this \<open>j < length word\<close>] obtain j' where
      "i + 1 \<le> j'" "j' < length word" "row + dx * int j' = row + dx * int j"
      "col + dy * int j' = col + dy * int j"
      "getCell grid' (row + dx * int j) (col + dy * int j) = Inr (Str [word ! j'])"
      by blast
    then have "i \<le> j' \<and> j' < length word \<and> row + dx * int j' = row + dx * int j
            \<and> col + dy * int j' = col + dy * int j
            \<and> getCell grid' (row + dx * int j) (col + dy * int j) = Inr (Str [word ! j'])"
      by simp
    then show ?thesis by blast
  next
    case True
    from writeWord_cells [OF pre] obtain g2 where
      g2: "writeWord ?g1 word row col dx dy (i + 1) = Inr g2"
      and c2: "\<forall>r c. getCell g2 r c = getCell ?g1 r c
                 \<or> (\<exists>j. i + 1 \<le> j \<and> j < length word \<and> r = row + dx * int j \<and> c = col + dy * int j
                        \<and> getCell g2 r c = Inr (Str [word ! j]))"
      by blast
    have "g2 = grid'" using g2 w1 by simp
    with c2 have
      "getCell grid' ?r ?c = getCell ?g1 ?r ?c
        \<or> (\<exists>j'. i + 1 \<le> j' \<and> j' < length word \<and> ?r = row + dx * int j' \<and> ?c = col + dy * int j'
                        \<and> getCell grid' ?r ?c = Inr (Str [word ! j']))"
      by blast
    then show ?thesis
    proof
      assume "getCell grid' ?r ?c = getCell ?g1 ?r ?c"
      then have "getCell grid' ?r ?c = Inr (Str [word ! i])"
        using getCell_update [OF ir] by simp
      then show ?thesis using True lt by auto
    next
      assume "\<exists>j'. i + 1 \<le> j' \<and> j' < length word \<and> ?r = row + dx * int j' \<and> ?c = col + dy * int j'
                        \<and> getCell grid' ?r ?c = Inr (Str [word ! j'])"
      then obtain j' where "i + 1 \<le> j'" "j' < length word" "?r = row + dx * int j'"
         "?c = col + dy * int j'" "getCell grid' ?r ?c = Inr (Str [word ! j'])" by blast
      then have "i \<le> j' \<and> j' < length word \<and> row + dx * int j' = row + dx * int j
            \<and> col + dy * int j' = col + dy * int j
            \<and> getCell grid' (row + dx * int j) (col + dy * int j) = Inr (Str [word ! j'])"
        using True by simp
      then show ?thesis by blast
    qed
  qed
qed

lemma canPlaceWord_eq:
  "canPlaceWord grid word row col dx dy =
     Inr (\<forall>j<length word. cellFits grid word row col dx dy j)"
  unfolding canPlaceWord_def canPlaceWord_loop_iff by simp

lemma placeWord_loop_result:
  assumes "directions \<noteq> []"
  shows "\<exists>ok grid' k'. placeWord_loop rnd grid word directions attempt k = Inr (ok, grid', k')
           \<and> (\<not> ok \<longrightarrow> grid' = grid)
           \<and> (ok \<longrightarrow> (\<exists>dx dy row col. (dx, dy) \<in> set directions
                   \<and> (\<forall>j<length word. cellFits grid word row col dx dy j)
                   \<and> writeWord grid word row col dx dy 0 = Inr grid'))"
  using assms
proof (induction rnd grid word directions attempt k rule: placeWord_loop.induct)
  case (1 rnd grid word directions attempt k)
  show ?case
  proof (cases "attempt < 200")
    case False
    then have "placeWord_loop rnd grid word directions attempt k = Inr (False, grid, k)"
      by (subst placeWord_loop.simps) simp
    then show ?thesis by (intro exI [of _ False]) simp
  next
    case True
    let ?d = "directions ! randomIndex rnd k (length directions)"
    let ?row = "int (randomIndex rnd (k + 1) (length grid))"
    let ?col = "int (randomIndex rnd (k + 2) (length grid))"
    obtain dx dy where d: "?d = (dx, dy)" by (cases ?d)
    have "randomIndex rnd k (length directions) < length directions"
      using "1.prems" by (simp add: randomIndex_def)
    then have mem: "(dx, dy) \<in> set directions" using d by (metis nth_mem)
    show ?thesis
    proof (cases "\<forall>j<length word. cellFits grid word ?row ?col dx dy j")
      case fits: True
      then have ir: "\<forall>j. 0 \<le> j \<and> j < length word \<longrightarrow>
                 inRange grid (?row + dx * int j) (?col + dy * int j)"
        using cellFits_inRange by blast
      from writeWord_cells [OF ir] obtain grid' where
        w: "writeWord grid word ?row ?col dx dy 0 = Inr grid'" by blast
      have ct: "canPlaceWord grid word ?row ?col dx dy = Inr True"
        using fits by (simp add: canPlaceWord_eq)
      have "placeWord_loop rnd grid word directions attempt k = Inr (True, grid', k + 3)"
        by (subst placeWord_loop.simps) (simp only: True "1.prems" d ct w if_True if_False
              prod.case sum.case)
      then show ?thesis using mem fits w by blast
    next
      case False
      then have cf: "canPlaceWord grid word ?row ?col dx dy = Inr False"
        by (simp add: canPlaceWord_eq)
      have step: "placeWord_loop rnd grid word directions attempt k =
                 placeWord_loop rnd grid word directions (attempt + 1) (k + 3)"
        by (subst placeWord_loop.simps) (simp only: True "1.prems" d cf if_True if_False
              prod.case sum.case)
      have nf: "\<not> False" by simp
      show ?thesis
        unfolding step
        by (rule "1.IH" [OF True "1.prems" d [symmetric] cf nf "1.prems"])
    qed
  qed
qed

text \<open>
  C1. For every grid, word, anchor \<open>(row, col)\<close> and direction \<open>(dx, dy)\<close>,
  \<open>canPlaceWord\<close> returns (it never throws), and it returns true exactly when every
  index \<open>i\<close> of the word has its cell \<open>(row + dx*i, col + dy*i)\<close> inside the grid
  bounds and either empty or equal to \<open>word[i]\<close>. A violation at any index, the first
  one included, therefore gives false. The function only reads the grid: its
  translation has no assignment to it and hands no grid back.
\<close>

theorem canPlaceWord_spec:
  "canPlaceWord grid word row col dx dy =
     Inr (\<forall>i<length word. cellFits grid word row col dx dy i)"
  unfolding canPlaceWord_def canPlaceWord_loop_iff by simp

theorem canPlaceWord_spec_witness:
  "canPlaceWord [[Str ''C'', Str [], Str []], [Str [], Str [], Str []], [Str [], Str [], Str []]]
      ''CAT'' 0 0 0 1 = Inr True
   \<and> cellFits [[Str ''C'', Str [], Str []], [Str [], Str [], Str []], [Str [], Str [], Str []]]
      ''CAT'' 0 0 0 1 2
   \<and> canPlaceWord [[Str ''C'', Str [], Str []], [Str [], Str [], Str []], [Str [], Str [], Str []]]
      ''DOG'' 0 0 0 1 = Inr False
   \<and> (\<exists>i<length ''DOG''. \<not> cellFits [[Str ''C'', Str [], Str []], [Str [], Str [], Str []],
      [Str [], Str [], Str []]] ''DOG'' 0 0 0 1 i)"
proof -
  let ?g = "[[Str ''C'', Str [], Str []], [Str [], Str [], Str []], [Str [], Str [], Str []]]"
  have t: "canPlaceWord ?g ''CAT'' 0 0 0 1 = Inr True" by code_simp
  have f: "canPlaceWord ?g ''DOG'' 0 0 0 1 = Inr False" by code_simp
  from t canPlaceWord_spec [of ?g "''CAT''" 0 0 0 1]
  have "\<forall>i<length ''CAT''. cellFits ?g ''CAT'' 0 0 0 1 i" by simp
  then have c: "cellFits ?g ''CAT'' 0 0 0 1 2" by simp
  from f canPlaceWord_spec [of ?g "''DOG''" 0 0 0 1]
  have "\<not> (\<forall>i<length ''DOG''. cellFits ?g ''DOG'' 0 0 0 1 i)" by simp
  then have d: "\<exists>i<length ''DOG''. \<not> cellFits ?g ''DOG'' 0 0 0 1 i" by blast
  from t c f d show ?thesis by blast
qed

lemma writeWord_writtenAlong:
  assumes ir: "\<forall>j<length word. inRange grid (row + dx * int j) (col + dy * int j)"
    and w: "writeWord grid word row col dx dy 0 = Inr grid'"
  shows "writtenAlong grid grid' word row col dx dy"
proof -
  have ir0: "\<forall>j. 0 \<le> j \<and> j < length word \<longrightarrow> inRange grid (row + dx * int j) (col + dy * int j)"
    using ir by simp
  from writeWord_cells [OF ir0] w have
    ml: "map length grid' = map length grid"
    and cells: "\<forall>r c. getCell grid' r c = getCell grid r c
                 \<or> (\<exists>j. 0 \<le> j \<and> j < length word \<and> r = row + dx * int j \<and> c = col + dy * int j
                        \<and> getCell grid' r c = Inr (Str [word ! j]))"
    by auto
  have off: "\<forall>r c. \<not> onLine word row col dx dy r c \<longrightarrow> getCell grid' r c = getCell grid r c"
    using cells unfolding onLine_def by blast
  have on: "\<exists>j<length word.
            row + dx * int j = row + dx * int i \<and> col + dy * int j = col + dy * int i
            \<and> getCell grid' (row + dx * int i) (col + dy * int i) = Inr (Str [word ! j])"
    if "i < length word" for i
    using writeWord_line [OF ir0 w _ that] by auto
  have inj: "getCell grid' (row + dx * int i) (col + dy * int i) = Inr (Str [word ! i])"
    if "dx \<noteq> 0 \<or> dy \<noteq> 0" and "i < length word" for i
  proof -
    from on [OF that(2)] obtain j where j: "j < length word"
      "row + dx * int j = row + dx * int i" "col + dy * int j = col + dy * int i"
      "getCell grid' (row + dx * int i) (col + dy * int i) = Inr (Str [word ! j])" by blast
    have "j = i" using line_inj [OF that(1) j(2) j(3)] .
    then show ?thesis using j(4) by simp
  qed
  show ?thesis unfolding writtenAlong_def using ml off on inj by blast
qed

lemma writeWord_keeps_filled:
  assumes fits: "\<forall>j<length word. cellFits grid word row col dx dy j"
    and w: "writeWord grid word row col dx dy 0 = Inr grid'"
    and old: "getCell grid r c = Inr v" and ne: "v \<noteq> Str []"
  shows "getCell grid' r c = Inr v"
proof -
  have ir0: "\<forall>j. 0 \<le> j \<and> j < length word \<longrightarrow> inRange grid (row + dx * int j) (col + dy * int j)"
    using fits cellFits_inRange by blast
  from writeWord_cells [OF ir0] w have
    "getCell grid' r c = getCell grid r c
       \<or> (\<exists>j. 0 \<le> j \<and> j < length word \<and> r = row + dx * int j \<and> c = col + dy * int j
              \<and> getCell grid' r c = Inr (Str [word ! j]))"
    by auto
  then show ?thesis
  proof
    assume "getCell grid' r c = getCell grid r c"
    then show ?thesis using old by simp
  next
    assume "\<exists>j. 0 \<le> j \<and> j < length word \<and> r = row + dx * int j \<and> c = col + dy * int j
              \<and> getCell grid' r c = Inr (Str [word ! j])"
    then obtain j where j: "j < length word" "r = row + dx * int j" "c = col + dy * int j"
       "getCell grid' r c = Inr (Str [word ! j])" by blast
    have "cellFits grid word row col dx dy j" using fits j(1) by simp
    then have "getCell grid r c = Inr (Str []) \<or> getCell grid r c = Inr (Str [word ! j])"
      using j(2,3) by (simp add: cellFits_def)
    then show ?thesis using old ne j(4) by auto
  qed
qed

lemma placeWord_result:
  "\<exists>ok grid' k'. placeWord rnd grid word directions k = Inr (ok, grid', k')
           \<and> (\<not> ok \<longrightarrow> grid' = grid)
           \<and> (ok \<longrightarrow> (\<exists>dx dy row col. (dx, dy) \<in> set directions
                   \<and> (\<forall>j<length word. cellFits grid word row col dx dy j)
                   \<and> writeWord grid word row col dx dy 0 = Inr grid'))"
proof (cases "directions = []")
  case True
  then have "placeWord rnd grid word directions k = Inr (False, grid, k)"
    by (simp add: placeWord_def)
  then show ?thesis by (intro exI [of _ False]) simp
next
  case False
  then have "placeWord rnd grid word directions k = placeWord_loop rnd grid word directions 0 k"
    by (simp add: placeWord_def)
  then show ?thesis using placeWord_loop_result [OF False] by simp
qed

lemma checkLine_iff:
  assumes "checkLine grid word r0 c0 dr dc j = Inr b"
  shows "b = (\<forall>j'. j \<le> j' \<and> j' < length word \<longrightarrow> lineOk grid word r0 c0 dr dc j')"
  using assms
proof (induction grid word r0 c0 dr dc j rule: checkLine.induct)
  case (1 grid word r0 c0 dr dc j)
  show ?case
  proof (cases "j < length word")
    case False
    then have "checkLine grid word r0 c0 dr dc j = Inr True"
      by (subst checkLine.simps) simp
    then show ?thesis using "1.prems" False by auto
  next
    case True
    show ?thesis
    proof (cases "getCell grid (r0 + dr * int j) (c0 + dc * int j)")
      case (Inl e)
      then have "checkLine grid word r0 c0 dr dc j = Inl e"
        using True by (subst checkLine.simps) simp
      then show ?thesis using "1.prems" by simp
    next
      case (Inr cell)
      show ?thesis
      proof (cases "cell \<noteq> Null \<and> cell \<noteq> Str [word ! j]")
        case bad: True
        then have "checkLine grid word r0 c0 dr dc j = Inr False"
          using True Inr by (subst checkLine.simps) simp
        then have "\<not> b" using "1.prems" by simp
        moreover have "\<not> lineOk grid word r0 c0 dr dc j"
          using bad Inr by (auto simp: lineOk_def)
        ultimately show ?thesis using True by auto
      next
        case good: False
        have "checkLine grid word r0 c0 dr dc j = checkLine grid word r0 c0 dr dc (j + 1)"
          by (subst checkLine.simps) (simp only: True Inr good if_True if_False sum.case)
        then have "checkLine grid word r0 c0 dr dc (j + 1) = Inr b" using "1.prems" by simp
        from "1.IH" [OF True Inr good this]
        have ih: "b = (\<forall>j'. j + 1 \<le> j' \<and> j' < length word \<longrightarrow> lineOk grid word r0 c0 dr dc j')" .
        have ok: "lineOk grid word r0 c0 dr dc j" using good Inr by (auto simp: lineOk_def)
        have "(\<forall>j'. j + 1 \<le> j' \<and> j' < length word \<longrightarrow> lineOk grid word r0 c0 dr dc j')
              = (\<forall>j'. j \<le> j' \<and> j' < length word \<longrightarrow> lineOk grid word r0 c0 dr dc j')"
          using ok by (metis Suc_eq_plus1 Suc_leI le_neq_implies_less add_leD1)
        with ih show ?thesis by simp
      qed
    qed
  qed
qed

lemma lineOk_inRange:
  "lineOk grid word r0 c0 dr dc j \<Longrightarrow> inRange grid (r0 + dr * int j) (c0 + dc * int j)"
  unfolding lineOk_def using getCell_Str_inRange getCell_Null_inRange by blast

lemma writeWord_keeps_letters:
  assumes fits: "\<forall>j<length word. lineOk grid word row col dx dy j"
    and w: "writeWord grid word row col dx dy 0 = Inr grid'"
    and old: "getCell grid r c = Inr v" and ne: "v \<noteq> Null"
  shows "getCell grid' r c = Inr v"
proof -
  have ir0: "\<forall>j. 0 \<le> j \<and> j < length word \<longrightarrow> inRange grid (row + dx * int j) (col + dy * int j)"
    using fits lineOk_inRange by blast
  from writeWord_cells [OF ir0] w have
    "getCell grid' r c = getCell grid r c
       \<or> (\<exists>j. 0 \<le> j \<and> j < length word \<and> r = row + dx * int j \<and> c = col + dy * int j
              \<and> getCell grid' r c = Inr (Str [word ! j]))"
    by auto
  then show ?thesis
  proof
    assume "getCell grid' r c = getCell grid r c"
    then show ?thesis using old by simp
  next
    assume "\<exists>j. 0 \<le> j \<and> j < length word \<and> r = row + dx * int j \<and> c = col + dy * int j
              \<and> getCell grid' r c = Inr (Str [word ! j])"
    then obtain j where j: "j < length word" "r = row + dx * int j" "c = col + dy * int j"
       "getCell grid' r c = Inr (Str [word ! j])" by blast
    have "lineOk grid word row col dx dy j" using fits j(1) by simp
    then have "getCell grid r c = Inr Null \<or> getCell grid r c = Inr (Str [word ! j])"
      using j(2,3) by (simp add: lineOk_def)
    then show ?thesis using old ne j(4) by auto
  qed
qed

lemma tryPlaceWord_result:
  assumes "tryPlaceWord grid entry row col direction indexInWord = Inr (res, grid')"
  shows "(res = None \<and> grid' = grid)
         \<or> (res = Some (fst (lineStart direction row col indexInWord),
                         snd (lineStart direction row col indexInWord), direction)
              \<and> entry_answer entry \<noteq> []
              \<and> committed grid grid' (entry_answer entry)
                   (lineStart direction row col indexInWord) (lineStep direction))"
proof (cases "direction = Across")
  case True
  let ?w = "entry_answer entry"
  show ?thesis
  proof (cases "length ?w = 0 \<or> col - int indexInWord < 0
            \<or> col - int indexInWord + int (length ?w) - 1 \<ge> int (length grid)")
    case True
    then show ?thesis using assms \<open>direction = Across\<close>
      by (auto simp: tryPlaceWord_def split: if_splits)
  next
    case False
    show ?thesis
    proof (cases "checkLine grid ?w row (col - int indexInWord) 0 1 0")
      case (Inl e)
      then show ?thesis using assms False True by (simp add: tryPlaceWord_def)
    next
      case (Inr ok)
      show ?thesis
      proof (cases ok)
        case f: False
        then show ?thesis using assms False True Inr by (simp add: tryPlaceWord_def)
      next
        case t: True
        from checkLine_iff [OF Inr] t
        have lo: "\<forall>j<length ?w. lineOk grid ?w row (col - int indexInWord) 0 1 j" by simp
        show ?thesis
        proof (cases "writeWord grid ?w row (col - int indexInWord) 0 1 0")
          case (Inl e)
          then show ?thesis using assms False True Inr t by (simp add: tryPlaceWord_def)
        next
          case wr: (Inr g2)
          then have "res = Some (row, col - int indexInWord, direction)" "grid' = g2"
            using assms False True Inr t by (simp_all add: tryPlaceWord_def)
          then show ?thesis using lo wr False True
            by (simp add: committed_def lineStart_def lineStep_def)
        qed
      qed
    qed
  qed
next
  case nA: False
  let ?w = "entry_answer entry"
  show ?thesis
  proof (cases "length ?w = 0 \<or> row - int indexInWord < 0
            \<or> row - int indexInWord + int (length ?w) - 1 \<ge> int (length grid)")
    case True
    then show ?thesis using assms nA
      by (auto simp: tryPlaceWord_def split: if_splits)
  next
    case False
    show ?thesis
    proof (cases "checkLine grid ?w (row - int indexInWord) col 1 0 0")
      case (Inl e)
      then show ?thesis using assms False nA by (simp add: tryPlaceWord_def)
    next
      case (Inr ok)
      show ?thesis
      proof (cases ok)
        case f: False
        then show ?thesis using assms False nA Inr by (simp add: tryPlaceWord_def)
      next
        case t: True
        from checkLine_iff [OF Inr] t
        have lo: "\<forall>j<length ?w. lineOk grid ?w (row - int indexInWord) col 1 0 j" by simp
        show ?thesis
        proof (cases "writeWord grid ?w (row - int indexInWord) col 1 0 0")
          case (Inl e)
          then show ?thesis using assms False nA Inr t by (simp add: tryPlaceWord_def)
        next
          case wr: (Inr g2)
          then have "res = Some (row - int indexInWord, col, direction)" "grid' = g2"
            using assms False nA Inr t by (simp_all add: tryPlaceWord_def)
          then show ?thesis using lo wr False nA
            by (simp add: committed_def lineStart_def lineStep_def)
        qed
      qed
    qed
  qed
qed

lemma committed_keeps:
  assumes "committed grid grid' word start step"
    and "getCell grid r c = Inr v" and "v \<noteq> Null"
  shows "getCell grid' r c = Inr v"
  using assms writeWord_keeps_letters unfolding committed_def by blast

lemma committed_shape:
  assumes "committed grid grid' word start step"
  shows "map length grid' = map length grid"
proof -
  have "\<forall>j. 0 \<le> j \<and> j < length word \<longrightarrow>
          inRange grid (fst start + fst step * int j) (snd start + snd step * int j)"
    using assms lineOk_inRange unfolding committed_def by blast
  from writeWord_cells [OF this] assms show ?thesis unfolding committed_def by auto
qed

text \<open>
  C4. For every word (the non-empty ones in particular), every grid and every state of
  the random source, \<open>placeWord\<close> with an empty direction set returns false and
  leaves the grid as it was; it draws nothing from the random source.
\<close>

theorem placeWord_no_directions:
  "placeWord rnd grid word [] k = Inr (False, grid, k)"
  by (simp add: placeWord_def)

text \<open>
  C10. For every grid, word and direction set, \<open>placeWord\<close> returns (it never
  throws). If it returns false the grid is unchanged. If it returns true there are a
  direction of the set and an anchor such that the grid keeps its shape, every cell off
  the line \<open>(row + dx*i, col + dy*i)\<close>, \<open>i < word.length\<close>, keeps its value, and
  every cell on the line holds the letter of an index that lands on it: the letter
  \<open>word[i]\<close> itself unless the direction is \<open>(0, 0)\<close>, where all indices land on
  one cell. The same holds for the first version of the page with its four fixed
  directions.
\<close>

theorem placeWord_frame:
  "(\<exists>ok grid' k'. placeWord rnd grid word directions k = Inr (ok, grid', k')
      \<and> (if ok then \<exists>dx dy row col. (dx, dy) \<in> set directions
                     \<and> writtenAlong grid grid' word row col dx dy
          else grid' = grid))
   \<and> (\<exists>ok grid' k'. placeWord_v1 rnd grid word k = Inr (ok, grid', k')
      \<and> (if ok then \<exists>dx dy row col. (dx, dy) \<in> set [(0, 1), (1, 0), (1, 1), (-1, 1)]
                     \<and> writtenAlong grid grid' word row col dx dy
          else grid' = grid))"
proof -
  have gen: "\<exists>ok grid' k'. res = Inr (ok, grid', k')
      \<and> (if ok then \<exists>dx dy row col. (dx, dy) \<in> set ds
                     \<and> writtenAlong grid grid' word row col dx dy
          else grid' = grid)"
    if r: "\<exists>ok grid' k'. res = Inr (ok, grid', k')
           \<and> (\<not> ok \<longrightarrow> grid' = grid)
           \<and> (ok \<longrightarrow> (\<exists>dx dy row col. (dx, dy) \<in> set ds
                   \<and> (\<forall>j<length word. cellFits grid word row col dx dy j)
                   \<and> writeWord grid word row col dx dy 0 = Inr grid'))"
    for res :: "error + (bool \<times> Grid \<times> nat)" and ds
  proof -
    from r obtain ok grid' k' where res: "res = Inr (ok, grid', k')"
      and no: "\<not> ok \<longrightarrow> grid' = grid"
      and yes: "ok \<longrightarrow> (\<exists>dx dy row col. (dx, dy) \<in> set ds
                   \<and> (\<forall>j<length word. cellFits grid word row col dx dy j)
                   \<and> writeWord grid word row col dx dy 0 = Inr grid')"
      by (elim exE conjE) (rule that)
    show ?thesis
    proof (cases ok)
      case False
      then have "if ok then \<exists>dx dy row col. (dx, dy) \<in> set ds
                     \<and> writtenAlong grid grid' word row col dx dy
          else grid' = grid" using no by simp
      with res show ?thesis by (intro exI conjI)
    next
      case True
      with yes obtain dx dy row col where m: "(dx, dy) \<in> set ds"
        and f: "\<forall>j<length word. cellFits grid word row col dx dy j"
        and w: "writeWord grid word row col dx dy 0 = Inr grid'" by blast
      have "\<forall>j<length word. inRange grid (row + dx * int j) (col + dy * int j)"
        using f cellFits_inRange by blast
      from writeWord_writtenAlong [OF this w] m
      have "\<exists>dx dy row col. (dx, dy) \<in> set ds \<and> writtenAlong grid grid' word row col dx dy"
        by blast
      then have "if ok then \<exists>dx dy row col. (dx, dy) \<in> set ds
                     \<and> writtenAlong grid grid' word row col dx dy
          else grid' = grid" using True by simp
      with res show ?thesis by (intro exI conjI)
    qed
  qed
  have v1: "placeWord_v1 rnd grid word k
              = placeWord_loop rnd grid word [(0, 1), (1, 0), (1, 1), (-1, 1)] 0 k"
    by (simp add: placeWord_v1_def)
  have ne: "[(0, 1), (1, 0), (1, 1), (-1, 1)] \<noteq> ([] :: (int \<times> int) list)" by simp
  show ?thesis
    unfolding v1
    by (rule conjI [OF gen [OF placeWord_result [of rnd grid word directions k]]
                 gen [OF placeWord_loop_result [OF ne, of rnd grid word 0 k]]])
qed

theorem placeWord_frame_witness:
  "placeWord (\<lambda>k. 0) [[Str [], Str ''A'', Str []], [Str [], Str [], Str []],
        [Str [], Str [], Str []]] ''CAT'' [(0, 1)] 0
     = Inr (True, [[Str ''C'', Str ''A'', Str ''T''], [Str [], Str [], Str []],
        [Str [], Str [], Str []]], 3)
   \<and> (\<exists>dx dy row col. (dx, dy) \<in> set [(0, 1)]
         \<and> writtenAlong [[Str [], Str ''A'', Str []], [Str [], Str [], Str []],
               [Str [], Str [], Str []]]
             [[Str ''C'', Str ''A'', Str ''T''], [Str [], Str [], Str []],
               [Str [], Str [], Str []]] ''CAT'' row col dx dy)
   \<and> placeWord (\<lambda>k. 2) [[Str [], Str ''A'', Str []], [Str [], Str [], Str []],
        [Str [], Str [], Str []]] ''CAT'' [(0, 1)] 0
     = Inr (False, [[Str [], Str ''A'', Str []], [Str [], Str [], Str []],
        [Str [], Str [], Str []]], 600)"
proof -
  let ?g = "[[Str [], Str ''A'', Str []], [Str [], Str [], Str []], [Str [], Str [], Str []]]"
  let ?g' = "[[Str ''C'', Str ''A'', Str ''T''], [Str [], Str [], Str []],
               [Str [], Str [], Str []]]"
  have e: "placeWord (\<lambda>k. 0) ?g ''CAT'' [(0, 1)] 0 = Inr (True, ?g', 3)"
    by code_simp
  have n: "placeWord (\<lambda>k. 2) ?g ''CAT'' [(0, 1)] 0 = Inr (False, ?g, 600)"
    by code_simp
  from placeWord_frame [of "\<lambda>k. 0" ?g "''CAT''" "[(0, 1)]" 0]
  obtain ok grid' k' where
    r: "placeWord (\<lambda>k. 0) ?g ''CAT'' [(0, 1)] 0 = Inr (ok, grid', k')"
    and c: "if ok then \<exists>dx dy row col. (dx, dy) \<in> set [(0, 1)]
                     \<and> writtenAlong ?g grid' ''CAT'' row col dx dy
          else grid' = ?g"
    by blast
  from r e have ok: "ok" and g: "grid' = ?g'" by simp_all
  from c have x:
    "\<exists>dx dy row col. (dx, dy) \<in> set [(0, 1)] \<and> writtenAlong ?g ?g' ''CAT'' row col dx dy"
    unfolding g using ok by (simp only: if_True)
  show ?thesis by (rule conjI [OF e conjI [OF x n]])
qed

text \<open>
  C2. A call of the word search's \<open>placeWord\<close> that returns true has found a line
  all of whose cells fit the word in the grid as it was before the first write (empty or
  the identical letter), and then written the word; a call that returns false has
  written nothing. Either way every cell that was not empty keeps its value. The
  crossword's \<open>tryPlaceWord\<close> likewise: a success has checked every cell of the line
  against the grid before the first write (\<open>null\<close> or the identical letter), a failure
  leaves the grid as it was, and every cell that was not \<open>null\<close> keeps its value.
  The crossword's first entry is written without a check, into the fresh grid, which
  holds no letter.
\<close>

theorem placement_never_overwrites:
  "(\<forall>ok grid' k'. placeWord rnd grid word directions k = Inr (ok, grid', k') \<longrightarrow>
       (ok \<longrightarrow> (\<exists>dx dy row col. (\<forall>i<length word. cellFits grid word row col dx dy i)
                   \<and> writeWord grid word row col dx dy 0 = Inr grid'))
       \<and> (\<not> ok \<longrightarrow> grid' = grid)
       \<and> (\<forall>r c v. getCell grid r c = Inr v \<and> v \<noteq> Str [] \<longrightarrow> getCell grid' r c = Inr v))
   \<and> (\<forall>res cgrid'. tryPlaceWord cgrid entry row col direction indexInWord = Inr (res, cgrid') \<longrightarrow>
       (res \<noteq> None \<longrightarrow> committed cgrid cgrid' (entry_answer entry)
                          (lineStart direction row col indexInWord) (lineStep direction))
       \<and> (res = None \<longrightarrow> cgrid' = cgrid)
       \<and> (\<forall>r c v. getCell cgrid r c = Inr v \<and> v \<noteq> Null \<longrightarrow> getCell cgrid' r c = Inr v))
   \<and> (\<forall>r c s. getCell (createEmptyGrid_cw n) r c \<noteq> Inr (Str s))"
proof -
  have ws: "(ok \<longrightarrow> (\<exists>dx dy row col. (\<forall>i<length word. cellFits grid word row col dx dy i)
                   \<and> writeWord grid word row col dx dy 0 = Inr grid'))
       \<and> (\<not> ok \<longrightarrow> grid' = grid)
       \<and> (\<forall>r c v. getCell grid r c = Inr v \<and> v \<noteq> Str [] \<longrightarrow> getCell grid' r c = Inr v)"
    if p: "placeWord rnd grid word directions k = Inr (ok, grid', k')" for ok grid' k'
  proof -
    from placeWord_result [of rnd grid word directions k] p
    have no: "\<not> ok \<longrightarrow> grid' = grid"
      and yes: "ok \<longrightarrow> (\<exists>dx dy row col. (dx, dy) \<in> set directions
                   \<and> (\<forall>j<length word. cellFits grid word row col dx dy j)
                   \<and> writeWord grid word row col dx dy 0 = Inr grid')"
      by auto
    have keep: "getCell grid' r c = Inr v" if "getCell grid r c = Inr v" "v \<noteq> Str []" for r c v
    proof (cases ok)
      case False
      then show ?thesis using no that by simp
    next
      case True
      with yes obtain dx dy row col where
        f: "\<forall>j<length word. cellFits grid word row col dx dy j"
        and w: "writeWord grid word row col dx dy 0 = Inr grid'" by blast
      show ?thesis using writeWord_keeps_filled [OF f w that] .
    qed
    from yes have "ok \<longrightarrow> (\<exists>dx dy row col. (\<forall>i<length word. cellFits grid word row col dx dy i)
                   \<and> writeWord grid word row col dx dy 0 = Inr grid')" by blast
    then show ?thesis using no keep by blast
  qed
  have cw: "(res \<noteq> None \<longrightarrow> committed cgrid cgrid' (entry_answer entry)
                          (lineStart direction row col indexInWord) (lineStep direction))
       \<and> (res = None \<longrightarrow> cgrid' = cgrid)
       \<and> (\<forall>r c v. getCell cgrid r c = Inr v \<and> v \<noteq> Null \<longrightarrow> getCell cgrid' r c = Inr v)"
    if t: "tryPlaceWord cgrid entry row col direction indexInWord = Inr (res, cgrid')"
    for res cgrid'
  proof -
    from tryPlaceWord_result [OF t] show ?thesis
    proof
      assume "res = None \<and> cgrid' = cgrid"
      then show ?thesis by simp
    next
      assume a: "res = Some (fst (lineStart direction row col indexInWord),
                         snd (lineStart direction row col indexInWord), direction)
              \<and> entry_answer entry \<noteq> []
              \<and> committed cgrid cgrid' (entry_answer entry)
                   (lineStart direction row col indexInWord) (lineStep direction)"
      then have "\<forall>r c v. getCell cgrid r c = Inr v \<and> v \<noteq> Null \<longrightarrow> getCell cgrid' r c = Inr v"
        using committed_keeps by blast
      with a show ?thesis by simp
    qed
  qed
  show ?thesis
  proof (intro conjI)
    show "\<forall>r c s. getCell (createEmptyGrid_cw n) r c \<noteq> Inr (Str s)"
      by (auto simp: createEmptyGrid_cw_def getCell_def getElem_def)
  next
    show "\<forall>ok grid' k'. placeWord rnd grid word directions k = Inr (ok, grid', k') \<longrightarrow>
       (ok \<longrightarrow> (\<exists>dx dy row col. (\<forall>i<length word. cellFits grid word row col dx dy i)
                   \<and> writeWord grid word row col dx dy 0 = Inr grid'))
       \<and> (\<not> ok \<longrightarrow> grid' = grid)
       \<and> (\<forall>r c v. getCell grid r c = Inr v \<and> v \<noteq> Str [] \<longrightarrow> getCell grid' r c = Inr v)"
      by (intro allI, rule impI, rule ws)
  next
    show "\<forall>res cgrid'. tryPlaceWord cgrid entry row col direction indexInWord = Inr (res, cgrid') \<longrightarrow>
       (res \<noteq> None \<longrightarrow> committed cgrid cgrid' (entry_answer entry)
                          (lineStart direction row col indexInWord) (lineStep direction))
       \<and> (res = None \<longrightarrow> cgrid' = cgrid)
       \<and> (\<forall>r c v. getCell cgrid r c = Inr v \<and> v \<noteq> Null \<longrightarrow> getCell cgrid' r c = Inr v)"
      by (intro allI, rule impI, rule cw)
  qed
qed

theorem placement_never_overwrites_witness:
  "placeWord (\<lambda>k. 0) [[Str [], Str ''A'', Str []], [Str [], Str [], Str []],
        [Str [], Str [], Str []]] ''CAT'' [(0, 1)] 0
     = Inr (True, [[Str ''C'', Str ''A'', Str ''T''], [Str [], Str [], Str []],
        [Str [], Str [], Str []]], 3)
   \<and> getCell [[Str ''C'', Str ''A'', Str ''T''], [Str [], Str [], Str []],
        [Str [], Str [], Str []]] 0 1 = Inr (Str ''A'')
   \<and> tryPlaceWord [[Null, Null, Null], [Null, Str ''A'', Null], [Null, Null, Null]]
        demoEntry 1 1 Across 1
     = Inr (Some (1, 0, Across),
            [[Null, Null, Null], [Str ''C'', Str ''A'', Str ''T''], [Null, Null, Null]])
   \<and> getCell [[Null, Null, Null], [Str ''C'', Str ''A'', Str ''T''], [Null, Null, Null]] 1 1
       = Inr (Str ''A'')"
proof -
  let ?g = "[[Str [], Str ''A'', Str []], [Str [], Str [], Str []], [Str [], Str [], Str []]]"
  let ?g' = "[[Str ''C'', Str ''A'', Str ''T''], [Str [], Str [], Str []],
               [Str [], Str [], Str []]]"
  let ?c = "[[Null, Null, Null], [Null, Str ''A'', Null], [Null, Null, Null]]"
  let ?c' = "[[Null, Null, Null], [Str ''C'', Str ''A'', Str ''T''], [Null, Null, Null]]"
  have e: "placeWord (\<lambda>k. 0) ?g ''CAT'' [(0, 1)] 0 = Inr (True, ?g', 3)"
    by code_simp
  have t: "tryPlaceWord ?c demoEntry 1 1 Across 1 = Inr (Some (1, 0, Across), ?c')"
    by code_simp
  have a: "getCell ?g 0 1 = Inr (Str ''A'')" by code_simp
  have b: "getCell ?c 1 1 = Inr (Str ''A'')" by code_simp
  note th = placement_never_overwrites [of "\<lambda>k. 0" ?g "''CAT''" "[(0, 1)]" 0 ?c demoEntry 1 1 Across 1]
  have a': "getCell ?g' 0 1 = Inr (Str ''A'')"
    using conjunct2 [OF conjunct2 [OF conjunct1 [OF th, rule_format, OF e]],
            rule_format, of 0 1 "Str ''A''"] a by simp
  have b': "getCell ?c' 1 1 = Inr (Str ''A'')"
    using conjunct2 [OF conjunct2 [OF conjunct1 [OF conjunct2 [OF th], rule_format, OF t]],
            rule_format, of 1 1 "Str ''A''"] b by simp
  from e a' t b' show ?thesis by blast
qed

lemma squareGrid_iff: "squareGrid sz grid = (map length grid = replicate sz sz)"
proof
  assume "squareGrid sz grid"
  then show "map length grid = replicate sz sz"
    by (auto simp: squareGrid_def intro!: nth_equalityI)
next
  assume a: "map length grid = replicate sz sz"
  then have l: "length grid = sz" by (metis length_map length_replicate)
  have "length row = sz" if "row \<in> set grid" for row
  proof -
    from that obtain i where "i < length grid" "grid ! i = row" by (auto simp: in_set_conv_nth)
    then show ?thesis using a l by (metis nth_map nth_replicate)
  qed
  then show "squareGrid sz grid" using l by (simp add: squareGrid_def)
qed

lemma squareGrid_inRange:
  "squareGrid sz grid \<Longrightarrow> r < sz \<Longrightarrow> c < sz \<Longrightarrow> inRange grid (int r) (int c)"
  by (simp add: squareGrid_def inRange_def)

lemma squareGrid_createEmptyGrid: "squareGrid sz (createEmptyGrid sz)"
  by (simp add: squareGrid_def createEmptyGrid_def)

lemma filledBy_refl: "filledBy grid grid"
  by (simp add: filledBy_def)

lemma randomLetter_alphabet: "\<exists>ch\<in>set alphabet. randomLetter rnd k = Str [ch]"
proof -
  have "randomIndex rnd k (length alphabet) < length alphabet"
    by (simp add: randomIndex_def alphabet_def)
  then show ?thesis unfolding randomLetter_def by (metis nth_mem)
qed

lemma filledBy_trans:
  assumes "filledBy g1 g2" and "filledBy g2 g3"
  shows "filledBy g1 g3"
  unfolding filledBy_def
proof (intro allI)
  fix r c
  from assms(1) have a: "getCell g2 r c = getCell g1 r c
        \<or> ((\<exists>v. getCell g1 r c = Inr v \<and> \<not> truthy v)
            \<and> (\<exists>ch\<in>set alphabet. getCell g2 r c = Inr (Str [ch])))"
    unfolding filledBy_def by (elim allE)
  from assms(2) have b: "getCell g3 r c = getCell g2 r c
        \<or> ((\<exists>v. getCell g2 r c = Inr v \<and> \<not> truthy v)
            \<and> (\<exists>ch\<in>set alphabet. getCell g3 r c = Inr (Str [ch])))"
    unfolding filledBy_def by (elim allE)
  show "getCell g3 r c = getCell g1 r c
        \<or> ((\<exists>v. getCell g1 r c = Inr v \<and> \<not> truthy v)
            \<and> (\<exists>ch\<in>set alphabet. getCell g3 r c = Inr (Str [ch])))"
  proof (cases "getCell g3 r c = getCell g2 r c")
    case True
    then show ?thesis using a by auto
  next
    case False
    with b obtain v where v: "getCell g2 r c = Inr v" "\<not> truthy v"
      and ch: "\<exists>ch\<in>set alphabet. getCell g3 r c = Inr (Str [ch])" by blast
    have "getCell g2 r c = getCell g1 r c"
    proof (rule ccontr)
      assume "getCell g2 r c \<noteq> getCell g1 r c"
      with a obtain ch' where "getCell g2 r c = Inr (Str [ch'])" by blast
      with v have "v = Str [ch']" by simp
      with v(2) show False by simp
    qed
    with v have "\<exists>v. getCell g1 r c = Inr v \<and> \<not> truthy v" by metis
    with ch show ?thesis by blast
  qed
qed

lemma filledBy_step:
  assumes ir: "inRange grid r c" and old: "getCell grid r c = Inr v" and f: "\<not> truthy v"
  shows "filledBy grid (grid[nat r := (grid ! nat r)[nat c := randomLetter rnd k]])"
  unfolding filledBy_def
proof (intro allI)
  fix r' c'
  show "getCell (grid[nat r := (grid ! nat r)[nat c := randomLetter rnd k]]) r' c' = getCell grid r' c'
        \<or> ((\<exists>v. getCell grid r' c' = Inr v \<and> \<not> truthy v)
            \<and> (\<exists>ch\<in>set alphabet. getCell (grid[nat r := (grid ! nat r)[nat c := randomLetter rnd k]]) r' c' = Inr (Str [ch])))"
    using getCell_update [OF ir, of "randomLetter rnd k" r' c'] old f
      randomLetter_alphabet [of rnd k]
    by (cases "r' = r \<and> c' = c") auto
qed

lemma fillRow_result:
  assumes "squareGrid sz grid" and "r < sz"
  shows "\<exists>grid' k'. fillRow rnd grid sz r c k = Inr (grid', k')
           \<and> map length grid' = map length grid
           \<and> filledBy grid grid'
           \<and> (\<forall>c'. c \<le> c' \<and> c' < sz \<longrightarrow> (\<exists>v. getCell grid' (int r) (int c') = Inr v \<and> truthy v))"
  using assms
proof (induction rnd grid sz r c k rule: fillRow.induct)
  case (1 rnd grid sz r c k)
  show ?case
  proof (cases "c < sz")
    case False
    then have "fillRow rnd grid sz r c k = Inr (grid, k)"
      by (subst fillRow.simps) simp
    then show ?thesis using False filledBy_refl by auto
  next
    case True
    have ir: "inRange grid (int r) (int c)"
      using squareGrid_inRange [OF "1.prems"(1) "1.prems"(2) True] .
    then obtain v where v: "getCell grid (int r) (int c) = Inr v"
      by (auto simp: getCell_def inRange_def)
    show ?thesis
    proof (cases "truthy v")
      case t: True
      have nt: "\<not> \<not> truthy v" using t by simp
      have step: "fillRow rnd grid sz r c k = fillRow rnd grid sz r (c + 1) k"
        by (subst fillRow.simps) (simp only: True v t if_True if_False sum.case not_True_eq_False)
      from "1.IH"(2) [OF True v nt "1.prems"] obtain grid' k' where
        r: "fillRow rnd grid sz r (c + 1) k = Inr (grid', k')"
        and ml: "map length grid' = map length grid"
        and fb: "filledBy grid grid'"
        and tr: "\<forall>c'. c + 1 \<le> c' \<and> c' < sz \<longrightarrow> (\<exists>v. getCell grid' (int r) (int c') = Inr v \<and> truthy v)"
        by (elim exE conjE)
      have here: "\<exists>v. getCell grid' (int r) (int c) = Inr v \<and> truthy v"
        using fb v t unfolding filledBy_def by (metis truthy.simps(3) list.distinct(1))
      have "\<exists>v. getCell grid' (int r) (int c') = Inr v \<and> truthy v" if "c \<le> c'" "c' < sz" for c'
        using that here tr by (cases "c' = c") auto
      then show ?thesis using step r ml fb by simp
    next
      case f: False
      let ?g1 = "grid[nat (int r) := (grid ! nat (int r))[nat (int c) := randomLetter rnd k]]"
      have sc: "setCell grid (int r) (int c) (randomLetter rnd k) = Inr ?g1"
        using ir by (rule setCell_inRange)
      have step: "fillRow rnd grid sz r c k = fillRow rnd ?g1 sz r (c + 1) (k + 1)"
        by (subst fillRow.simps) (simp only: True v f sc if_True if_False sum.case not_False_eq_True)
      have ml1: "map length ?g1 = map length grid" by (rule map_length_update_inRange)
      have sq1: "squareGrid sz ?g1" using "1.prems"(1) ml1 by (simp add: squareGrid_iff)
      from "1.IH"(1) [OF True v f sc sq1 "1.prems"(2)] obtain grid' k' where
        r: "fillRow rnd ?g1 sz r (c + 1) (k + 1) = Inr (grid', k')"
        and ml: "map length grid' = map length ?g1"
        and fb: "filledBy ?g1 grid'"
        and tr: "\<forall>c'. c + 1 \<le> c' \<and> c' < sz \<longrightarrow> (\<exists>v. getCell grid' (int r) (int c') = Inr v \<and> truthy v)"
        by (elim exE conjE)
      have fb0: "filledBy grid grid'"
        using filledBy_trans [OF filledBy_step [OF ir v f] fb] .
      have g1c: "getCell ?g1 (int r) (int c) = Inr (randomLetter rnd k)"
        using getCell_update [OF ir, of "randomLetter rnd k" "int r" "int c"] by simp
      have here: "\<exists>v. getCell grid' (int r) (int c) = Inr v \<and> truthy v"
        using fb g1c randomLetter_alphabet [of rnd k] unfolding filledBy_def
        by (metis truthy.simps(3) list.distinct(1))
      have "\<exists>v. getCell grid' (int r) (int c') = Inr v \<and> truthy v" if "c \<le> c'" "c' < sz" for c'
        using that here tr by (cases "c' = c") auto
      then show ?thesis using step r ml ml1 fb0 by simp
    qed
  qed
qed

lemma filledBy_truthy:
  assumes "filledBy g1 g2" and "getCell g1 r c = Inr v" and "truthy v"
  shows "\<exists>v'. getCell g2 r c = Inr v' \<and> truthy v'"
proof -
  from assms(1) have "getCell g2 r c = getCell g1 r c
        \<or> ((\<exists>v. getCell g1 r c = Inr v \<and> \<not> truthy v)
            \<and> (\<exists>ch\<in>set alphabet. getCell g2 r c = Inr (Str [ch])))"
    unfolding filledBy_def by (elim allE)
  then show ?thesis
  proof
    assume "getCell g2 r c = getCell g1 r c"
    then show ?thesis using assms(2,3) by simp
  next
    assume "(\<exists>v. getCell g1 r c = Inr v \<and> \<not> truthy v)
            \<and> (\<exists>ch\<in>set alphabet. getCell g2 r c = Inr (Str [ch]))"
    then obtain ch where "getCell g2 r c = Inr (Str [ch])" by blast
    then show ?thesis by simp
  qed
qed

lemma fillEmpty_result:
  assumes "squareGrid sz grid"
  shows "\<exists>grid' k'. fillEmpty rnd grid sz r k = Inr (grid', k')
           \<and> map length grid' = map length grid
           \<and> filledBy grid grid'
           \<and> (\<forall>r' c'. r \<le> r' \<and> r' < sz \<and> c' < sz \<longrightarrow>
                 (\<exists>v. getCell grid' (int r') (int c') = Inr v \<and> truthy v))"
  using assms
proof (induction rnd grid sz r k rule: fillEmpty.induct)
  case (1 rnd grid sz r k)
  show ?case
  proof (cases "r < sz")
    case False
    then have "fillEmpty rnd grid sz r k = Inr (grid, k)"
      by (subst fillEmpty.simps) simp
    then show ?thesis using False filledBy_refl by auto
  next
    case True
    from fillRow_result [OF "1.prems" True, of rnd 0 k] obtain g1 k1 where
      fr: "fillRow rnd grid sz r 0 k = Inr (g1, k1)"
      and ml1: "map length g1 = map length grid"
      and fb1: "filledBy grid g1"
      and tr1: "\<forall>c'. 0 \<le> c' \<and> c' < sz \<longrightarrow> (\<exists>v. getCell g1 (int r) (int c') = Inr v \<and> truthy v)"
      by (elim exE conjE)
    have sq1: "squareGrid sz g1" using "1.prems" ml1 by (simp add: squareGrid_iff)
    have step: "fillEmpty rnd grid sz r k = fillEmpty rnd g1 sz (r + 1) k1"
      by (subst fillEmpty.simps) (simp only: True fr if_True sum.case prod.case)
    have pr: "(g1, k1) = (g1, k1)" by simp
    from "1.IH" [OF True fr pr sq1] obtain grid' k' where
      r: "fillEmpty rnd g1 sz (r + 1) k1 = Inr (grid', k')"
      and ml: "map length grid' = map length g1"
      and fb: "filledBy g1 grid'"
      and tr: "\<forall>r' c'. r + 1 \<le> r' \<and> r' < sz \<and> c' < sz \<longrightarrow>
                 (\<exists>v. getCell grid' (int r') (int c') = Inr v \<and> truthy v)"
      by (elim exE conjE)
    have "\<exists>v. getCell grid' (int r') (int c') = Inr v \<and> truthy v"
      if "r \<le> r'" "r' < sz" "c' < sz" for r' c'
    proof (cases "r' = r")
      case False
      then show ?thesis using that tr by simp
    next
      case rr: True
      from tr1 that(3) obtain v where "getCell g1 (int r) (int c') = Inr v" "truthy v" by auto
      from filledBy_truthy [OF fb this] show ?thesis using rr by simp
    qed
    then show ?thesis using step r ml ml1 filledBy_trans [OF fb1 fb] by simp
  qed
qed

lemma placeWord_madeOf:
  assumes p: "placeWord rnd grid word directions k = Inr (ok, grid', k')"
    and w: "word \<in> W" and m: "madeOf W grid"
  shows "map length grid' = map length grid \<and> madeOf W grid'"
proof (cases ok)
  case False
  then have "grid' = grid" using placeWord_result [of rnd grid word directions k] p by auto
  then show ?thesis using m by simp
next
  case True
  then obtain dx dy row col where
    f: "\<forall>j<length word. cellFits grid word row col dx dy j"
    and wr: "writeWord grid word row col dx dy 0 = Inr grid'"
    using placeWord_result [of rnd grid word directions k] p by auto
  have ir0: "\<forall>j. 0 \<le> j \<and> j < length word \<longrightarrow> inRange grid (row + dx * int j) (col + dy * int j)"
    using f cellFits_inRange by blast
  from writeWord_cells [OF ir0] wr have
    ml: "map length grid' = map length grid"
    and cells: "\<forall>r c. getCell grid' r c = getCell grid r c
                 \<or> (\<exists>j. 0 \<le> j \<and> j < length word \<and> r = row + dx * int j \<and> c = col + dy * int j
                        \<and> getCell grid' r c = Inr (Str [word ! j]))"
    by auto
  have "getCell grid' r c = Inr (Str [])
        \<or> (\<exists>w\<in>W. \<exists>ch\<in>set w. getCell grid' r c = Inr (Str [ch]))"
    if "inRange grid' r c" for r c
  proof -
    have irg: "inRange grid r c" using that inRange_cong [OF ml] by simp
    from cells have "getCell grid' r c = getCell grid r c
                 \<or> (\<exists>j. 0 \<le> j \<and> j < length word \<and> r = row + dx * int j \<and> c = col + dy * int j
                        \<and> getCell grid' r c = Inr (Str [word ! j]))" by (elim allE)
    then show ?thesis
    proof
      assume "getCell grid' r c = getCell grid r c"
      then show ?thesis using m irg unfolding madeOf_def by simp
    next
      assume "\<exists>j. 0 \<le> j \<and> j < length word \<and> r = row + dx * int j \<and> c = col + dy * int j
                        \<and> getCell grid' r c = Inr (Str [word ! j])"
      then obtain j where "j < length word" "getCell grid' r c = Inr (Str [word ! j])" by blast
      then show ?thesis using w by (metis nth_mem)
    qed
  qed
  then show ?thesis using ml unfolding madeOf_def by simp
qed

lemma placeAll_result:
  assumes "set ws \<subseteq> W" and "madeOf W grid"
  shows "\<exists>grid' k'. placeAll rnd grid ws directions k = Inr (grid', k')
           \<and> map length grid' = map length grid \<and> madeOf W grid'"
  using assms
proof (induction ws arbitrary: grid k)
  case Nil
  then show ?case by simp
next
  case (Cons word ws)
  from placeWord_result [of rnd grid word directions k] obtain ok g1 k1 where
    p: "placeWord rnd grid word directions k = Inr (ok, g1, k1)" by (elim exE conjE)
  have w: "word \<in> W" using Cons.prems(1) by simp
  from placeWord_madeOf [OF p w Cons.prems(2)]
  have ml1: "map length g1 = map length grid" and m1: "madeOf W g1" by simp_all
  have sub: "set ws \<subseteq> W" using Cons.prems(1) by simp
  from Cons.IH [OF sub m1, of k1] obtain grid' k' where
    r: "placeAll rnd g1 ws directions k1 = Inr (grid', k')"
    and ml: "map length grid' = map length g1" and m: "madeOf W grid'"
    by (elim exE conjE)
  have "placeAll rnd grid (word # ws) directions k = Inr (grid', k')"
    using p r by simp
  then show ?case using ml ml1 m by simp
qed

lemma madeOf_createEmptyGrid: "madeOf W (createEmptyGrid sz)"
  by (auto simp: madeOf_def inRange_def createEmptyGrid_def getCell_def getElem_def)

lemma placeAll_fill_shape:
  "\<exists>g1 k1 g2 k2. placeAll rnd (createEmptyGrid sz) ws directions k = Inr (g1, k1)
      \<and> squareGrid sz g1 \<and> madeOf (set ws) g1
      \<and> fillEmpty rnd g1 sz 0 k1 = Inr (g2, k2) \<and> squareGrid sz g2
      \<and> filledBy g1 g2
      \<and> (\<forall>r c. r < sz \<and> c < sz \<longrightarrow> (\<exists>v. getCell g2 (int r) (int c) = Inr v \<and> truthy v))"
proof -
  have sub: "set ws \<subseteq> set ws" by simp
  from placeAll_result [OF sub madeOf_createEmptyGrid, of rnd sz directions k]
  obtain g1 k1 where
    p: "placeAll rnd (createEmptyGrid sz) ws directions k = Inr (g1, k1)"
    and ml1: "map length g1 = map length (createEmptyGrid sz)"
    and m1: "madeOf (set ws) g1"
    by (elim exE conjE)
  have sq1: "squareGrid sz g1"
    using squareGrid_createEmptyGrid [of sz] ml1 by (simp add: squareGrid_iff)
  from fillEmpty_result [OF sq1, of rnd 0 k1] obtain g2 k2 where
    f: "fillEmpty rnd g1 sz 0 k1 = Inr (g2, k2)"
    and ml2: "map length g2 = map length g1"
    and fb: "filledBy g1 g2"
    and tr: "\<forall>r' c'. 0 \<le> r' \<and> r' < sz \<and> c' < sz \<longrightarrow>
                 (\<exists>v. getCell g2 (int r') (int c') = Inr v \<and> truthy v)"
    by (elim exE conjE)
  have sq2: "squareGrid sz g2" using sq1 ml2 by (simp add: squareGrid_iff)
  have tr': "\<forall>r c. r < sz \<and> c < sz \<longrightarrow> (\<exists>v. getCell g2 (int r) (int c) = Inr v \<and> truthy v)"
    using tr by simp
  from p sq1 m1 f sq2 fb tr' show ?thesis by (intro exI conjI)
qed

text \<open>
  C3. For every grid size \<open>S\<close>, every word list and every random source, the
  generator returns a grid of \<open>S\<close> rows of \<open>S\<close> cells, and so does the placement
  phase before the fill. A write outside \<open>[0,S) \<times> [0,S)\<close> would have ended the run
  with \<open>TypeError\<close> or \<open>NonIndexWrite\<close>, or left a row longer than \<open>S\<close>; none of
  these happens. The length bound of the claim is not needed: \<open>generatePuzzle\<close> drops
  the longer words, and \<open>placeWord\<close> on a longer word writes nothing.
\<close>

theorem generatePuzzle_in_grid:
  "(\<exists>grid. generatePuzzle toUpperCase rnd rawWords sz directionOptions
              = Inr (grid, cleanWords toUpperCase rawWords sz) \<and> squareGrid sz grid)
   \<and> (\<exists>g1 k1 g2 k2. placeAll rnd (createEmptyGrid sz) ws directions k = Inr (g1, k1)
         \<and> squareGrid sz g1
         \<and> fillEmpty rnd g1 sz 0 k1 = Inr (g2, k2) \<and> squareGrid sz g2)"
proof (rule conjI)
  from placeAll_fill_shape [of rnd sz "cleanWords toUpperCase rawWords sz"
          "buildDirections directionOptions" 0]
  obtain g1 k1 g2 k2 where
    p: "placeAll rnd (createEmptyGrid sz) (cleanWords toUpperCase rawWords sz)
          (buildDirections directionOptions) 0 = Inr (g1, k1)"
    and f: "fillEmpty rnd g1 sz 0 k1 = Inr (g2, k2)" and sq: "squareGrid sz g2"
    by (elim exE conjE)
  have "generatePuzzle toUpperCase rnd rawWords sz directionOptions = Inr (g2, cleanWords toUpperCase rawWords sz)"
    using p f by (simp add: generatePuzzle_def)
  with sq show "\<exists>grid. generatePuzzle toUpperCase rnd rawWords sz directionOptions
              = Inr (grid, cleanWords toUpperCase rawWords sz) \<and> squareGrid sz grid"
    by (intro exI conjI)
next
  from placeAll_fill_shape [of rnd sz ws directions k]
  obtain g1 k1 g2 k2 where
    "placeAll rnd (createEmptyGrid sz) ws directions k = Inr (g1, k1)"
    "squareGrid sz g1" "fillEmpty rnd g1 sz 0 k1 = Inr (g2, k2)" "squareGrid sz g2"
    by (elim exE conjE)
  then show "\<exists>g1 k1 g2 k2. placeAll rnd (createEmptyGrid sz) ws directions k = Inr (g1, k1)
         \<and> squareGrid sz g1
         \<and> fillEmpty rnd g1 sz 0 k1 = Inr (g2, k2) \<and> squareGrid sz g2"
    by (intro exI conjI)
qed

theorem generatePuzzle_in_grid_witness:
  "\<exists>grid. generatePuzzle asciiUpperCase (\<lambda>k. k) [''cat'', '' dog '', ''elephant''] 4
        \<lparr>horizontal = True, vertical = True, diagonal = True, backwards = True\<rparr>
        = Inr (grid, [''CAT'', ''DOG''])
      \<and> length grid = 4 \<and> length (grid ! 3) = 4"
proof -
  have c: "cleanWords asciiUpperCase [''cat'', '' dog '', ''elephant''] 4 = [''CAT'', ''DOG'']"
    by code_simp
  from conjunct1 [OF generatePuzzle_in_grid [of asciiUpperCase "\<lambda>k. k"
      "[''cat'', '' dog '', ''elephant'']" 4
      "\<lparr>horizontal = True, vertical = True, diagonal = True, backwards = True\<rparr>"]]
  obtain grid where
    g: "generatePuzzle asciiUpperCase (\<lambda>k. k) [''cat'', '' dog '', ''elephant''] 4
        \<lparr>horizontal = True, vertical = True, diagonal = True, backwards = True\<rparr>
        = Inr (grid, cleanWords asciiUpperCase [''cat'', '' dog '', ''elephant''] 4)"
    and sq: "squareGrid 4 grid"
    by (elim exE conjE)
  from sq have l: "length grid = 4" and "\<forall>row\<in>set grid. length row = 4"
    by (simp_all add: squareGrid_def)
  then have l3: "length (grid ! 3) = 4" by simp
  from g l l3 show ?thesis unfolding c by (intro exI conjI)
qed

text \<open>
  C5 as stated fails: a word keeps its digits and punctuation, so a cell covered by a
  placed word can hold a character that is no letter.
\<close>

theorem generatePuzzle_letters_counterexample:
  "\<exists>grid ws. generatePuzzle asciiUpperCase (\<lambda>k. 0) [''r2d2''] 8
        \<lparr>horizontal = True, vertical = True, diagonal = False, backwards = False\<rparr>
        = Inr (grid, ws)
     \<and> getCell grid 0 1 = Inr (Str ''2'')
     \<and> \<not> (\<exists>ch\<in>set alphabet. getCell grid 0 1 = Inr (Str [ch]))"
proof -
  have ev: "(case generatePuzzle asciiUpperCase (\<lambda>k. 0) [''r2d2''] 8
               \<lparr>horizontal = True, vertical = True, diagonal = False, backwards = False\<rparr> of
             Inl e \<Rightarrow> False
           | Inr (grid, ws) \<Rightarrow> getCell grid 0 1 = Inr (Str ''2''))"
    by code_simp
  have na: "\<not> (\<exists>ch\<in>set alphabet. Inr (Str ''2'') = (Inr (Str [ch]) :: error + jsval))"
    by (simp add: alphabet_def)
  from ev obtain grid ws where
    g: "generatePuzzle asciiUpperCase (\<lambda>k. 0) [''r2d2''] 8
        \<lparr>horizontal = True, vertical = True, diagonal = False, backwards = False\<rparr>
        = Inr (grid, ws)"
    and c: "getCell grid 0 1 = Inr (Str ''2'')"
    by (auto split: sum.splits prod.splits)
  from c na have "\<not> (\<exists>ch\<in>set alphabet. getCell grid 0 1 = Inr (Str [ch]))" by simp
  with g c show ?thesis by (intro exI conjI)
qed

text \<open>
  C5, amended. \<open>generatePuzzle\<close> returns, and no cell of the returned grid is empty:
  every cell that the placement phase left empty holds one letter from A to Z, and
  every other cell holds the one character of a cleaned word that the placement phase
  wrote there. So every cell of the result holds exactly one character.
\<close>

theorem generatePuzzle_cells:
  "\<exists>g1 k1 grid.
      placeAll rnd (createEmptyGrid sz) (cleanWords toUpperCase rawWords sz)
        (buildDirections directionOptions) 0 = Inr (g1, k1)
      \<and> generatePuzzle toUpperCase rnd rawWords sz directionOptions = Inr (grid, cleanWords toUpperCase rawWords sz)
      \<and> (\<forall>r<sz. \<forall>c<sz.
            (getCell g1 (int r) (int c) = Inr (Str [])
               \<and> (\<exists>ch\<in>set alphabet. getCell grid (int r) (int c) = Inr (Str [ch])))
            \<or> (\<exists>w\<in>set (cleanWords toUpperCase rawWords sz). \<exists>ch\<in>set w.
                  getCell g1 (int r) (int c) = Inr (Str [ch])
                  \<and> getCell grid (int r) (int c) = Inr (Str [ch])))"
proof -
  let ?ws = "cleanWords toUpperCase rawWords sz"
  from placeAll_fill_shape [of rnd sz ?ws "buildDirections directionOptions" 0]
  obtain g1 k1 g2 k2 where
    p: "placeAll rnd (createEmptyGrid sz) ?ws (buildDirections directionOptions) 0 = Inr (g1, k1)"
    and sq1: "squareGrid sz g1" and m1: "madeOf (set ?ws) g1"
    and f: "fillEmpty rnd g1 sz 0 k1 = Inr (g2, k2)"
    and fb: "filledBy g1 g2"
    and tr: "\<forall>r c. r < sz \<and> c < sz \<longrightarrow> (\<exists>v. getCell g2 (int r) (int c) = Inr v \<and> truthy v)"
    by (elim exE conjE)
  have gp: "generatePuzzle toUpperCase rnd rawWords sz directionOptions = Inr (g2, ?ws)"
    using p f by (simp add: generatePuzzle_def)
  have cell: "(getCell g1 (int r) (int c) = Inr (Str [])
               \<and> (\<exists>ch\<in>set alphabet. getCell g2 (int r) (int c) = Inr (Str [ch])))
            \<or> (\<exists>w\<in>set ?ws. \<exists>ch\<in>set w.
                  getCell g1 (int r) (int c) = Inr (Str [ch])
                  \<and> getCell g2 (int r) (int c) = Inr (Str [ch]))"
    if r: "r < sz" and c: "c < sz" for r c
  proof -
    have ir: "inRange g1 (int r) (int c)" using squareGrid_inRange [OF sq1 r c] .
    from tr r c obtain v2 where v2: "getCell g2 (int r) (int c) = Inr v2" "truthy v2" by blast
    from fb have alt: "getCell g2 (int r) (int c) = getCell g1 (int r) (int c)
        \<or> ((\<exists>v. getCell g1 (int r) (int c) = Inr v \<and> \<not> truthy v)
            \<and> (\<exists>ch\<in>set alphabet. getCell g2 (int r) (int c) = Inr (Str [ch])))"
      unfolding filledBy_def by (elim allE)
    from m1 ir have "getCell g1 (int r) (int c) = Inr (Str [])
        \<or> (\<exists>w\<in>set ?ws. \<exists>ch\<in>set w. getCell g1 (int r) (int c) = Inr (Str [ch]))"
      unfolding madeOf_def by simp
    then show ?thesis
    proof
      assume e: "getCell g1 (int r) (int c) = Inr (Str [])"
      have "getCell g2 (int r) (int c) \<noteq> getCell g1 (int r) (int c)"
        using e v2 by auto
      with alt have "\<exists>ch\<in>set alphabet. getCell g2 (int r) (int c) = Inr (Str [ch])" by simp
      with e show ?thesis by simp
    next
      assume "\<exists>w\<in>set ?ws. \<exists>ch\<in>set w. getCell g1 (int r) (int c) = Inr (Str [ch])"
      then obtain w ch where w: "w \<in> set ?ws" "ch \<in> set w"
        and l: "getCell g1 (int r) (int c) = Inr (Str [ch])" by blast
      have "\<not> (\<exists>v. getCell g1 (int r) (int c) = Inr v \<and> \<not> truthy v)" using l by simp
      with alt have "getCell g2 (int r) (int c) = Inr (Str [ch])" using l by simp
      with w l show ?thesis by blast
    qed
  qed
  from p gp cell show ?thesis by (intro exI conjI) blast+
qed

theorem generatePuzzle_cells_witness:
  "\<exists>g1 k1 grid.
      placeAll (\<lambda>k. 0) (createEmptyGrid 8) [''R2D2'']
        (buildDirections \<lparr>horizontal = True, vertical = True, diagonal = False,
           backwards = False\<rparr>) 0 = Inr (g1, k1)
      \<and> generatePuzzle asciiUpperCase (\<lambda>k. 0) [''r2d2''] 8
          \<lparr>horizontal = True, vertical = True, diagonal = False, backwards = False\<rparr>
          = Inr (grid, [''R2D2''])
      \<and> ((getCell g1 0 4 = Inr (Str [])
               \<and> (\<exists>ch\<in>set alphabet. getCell grid 0 4 = Inr (Str [ch])))
            \<or> (\<exists>w\<in>set [''R2D2'']. \<exists>ch\<in>set w.
                  getCell g1 0 4 = Inr (Str [ch]) \<and> getCell grid 0 4 = Inr (Str [ch])))"
proof -
  have c: "cleanWords asciiUpperCase [''r2d2''] 8 = [''R2D2'']" by code_simp
  from generatePuzzle_cells [of "\<lambda>k. 0" 8 asciiUpperCase "[''r2d2'']"
      "\<lparr>horizontal = True, vertical = True, diagonal = False, backwards = False\<rparr>"]
  obtain g1 k1 grid where
    p: "placeAll (\<lambda>k. 0) (createEmptyGrid 8) [''R2D2'']
        (buildDirections \<lparr>horizontal = True, vertical = True, diagonal = False,
           backwards = False\<rparr>) 0 = Inr (g1, k1)"
    and g: "generatePuzzle asciiUpperCase (\<lambda>k. 0) [''r2d2''] 8
          \<lparr>horizontal = True, vertical = True, diagonal = False, backwards = False\<rparr>
          = Inr (grid, [''R2D2''])"
    and a: "\<forall>r<8. \<forall>c<8.
            (getCell g1 (int r) (int c) = Inr (Str [])
               \<and> (\<exists>ch\<in>set alphabet. getCell grid (int r) (int c) = Inr (Str [ch])))
            \<or> (\<exists>w\<in>set [''R2D2'']. \<exists>ch\<in>set w.
                  getCell g1 (int r) (int c) = Inr (Str [ch])
                  \<and> getCell grid (int r) (int c) = Inr (Str [ch]))"
    unfolding c by (elim exE conjE)
  have "(0::nat) < 8" "(4::nat) < 8" by simp_all
  with a have "(getCell g1 (int 0) (int 4) = Inr (Str [])
               \<and> (\<exists>ch\<in>set alphabet. getCell grid (int 0) (int 4) = Inr (Str [ch])))
            \<or> (\<exists>w\<in>set [''R2D2'']. \<exists>ch\<in>set w.
                  getCell g1 (int 0) (int 4) = Inr (Str [ch])
                  \<and> getCell grid (int 0) (int 4) = Inr (Str [ch]))"
    by blast
  then have b: "(getCell g1 0 4 = Inr (Str [])
               \<and> (\<exists>ch\<in>set alphabet. getCell grid 0 4 = Inr (Str [ch])))
            \<or> (\<exists>w\<in>set [''R2D2'']. \<exists>ch\<in>set w.
                  getCell g1 0 4 = Inr (Str [ch]) \<and> getCell grid 0 4 = Inr (Str [ch]))"
    by simp
  from p g b show ?thesis by (intro exI conjI)
qed

lemma bingo_empty:
  "replicate SIZE (replicate SIZE (Str [])) =
     [[Str [], Str [], Str [], Str [], Str []], [Str [], Str [], Str [], Str [], Str []],
      [Str [], Str [], Str [], Str [], Str []], [Str [], Str [], Str [], Str [], Str []],
      [Str [], Str [], Str [], Str [], Str []]]"
  by (simp add: SIZE_def eval_nat_numeral)

lemma bingoRows_closed:
  "bingoRows sel (replicate SIZE (replicate SIZE (Str []))) 0 0 =
     Inr ([[selectedAt sel 0, selectedAt sel 1, selectedAt sel 2, selectedAt sel 3, selectedAt sel 4],
           [selectedAt sel 5, selectedAt sel 6, selectedAt sel 7, selectedAt sel 8, selectedAt sel 9],
           [selectedAt sel 10, selectedAt sel 11, Str ''FREE'', selectedAt sel 12, selectedAt sel 13],
           [selectedAt sel 14, selectedAt sel 15, selectedAt sel 16, selectedAt sel 17, selectedAt sel 18],
           [selectedAt sel 19, selectedAt sel 20, selectedAt sel 21, selectedAt sel 22, selectedAt sel 23]],
          24)"
  unfolding bingo_empty
  by (simp add: bingoRows.simps bingoCols.simps SIZE_def USE_FREE_CENTER_def setCell_def
        setElem_def) (simp add: eval_nat_numeral)

lemma mset_shuffle_loop:
  "i < length copy \<or> i = 0 \<Longrightarrow> mset (shuffle_loop rnd copy i k) = mset copy"
proof (induction rnd copy i k rule: shuffle_loop.induct)
  case (1 rnd copy i k)
  show ?case
  proof (cases "i > 0")
    case False
    then show ?thesis by (subst shuffle_loop.simps) simp
  next
    case True
    let ?j = "randomIndex rnd k (i + 1)"
    let ?c = "(copy[i := copy ! ?j])[?j := copy ! i]"
    have il: "i < length copy" using True "1.prems" by auto
    have "?j < i + 1" by (simp add: randomIndex_def)
    then have jl: "?j < length copy" using il by simp
    have sw: "mset ?c = mset copy" using mset_swap [OF jl il] by simp
    have "i - 1 < length ?c \<or> i - 1 = 0" using il by auto
    from "1.IH" [OF True this] have "mset (shuffle_loop rnd ?c (i - 1) (k + 1)) = mset ?c" .
    then show ?thesis using True sw by (subst shuffle_loop.simps) simp
  qed
qed

lemma mset_shuffleArray: "mset (shuffleArray rnd arr) = mset arr"
  unfolding shuffleArray_def by (rule mset_shuffle_loop) (cases arr; simp)

lemma length_shuffleArray: "length (shuffleArray rnd arr) = length arr"
  using mset_shuffleArray [of rnd arr] by (metis size_mset)

lemma neededWords_24: "neededWords = 24"
  by (simp add: neededWords_def SIZE_def USE_FREE_CENTER_def)

lemma bingoMessage_text:
  "bingoMessage = ''You need at least 24 words for a 5'' @ [CHR 0xD7] @ ''5 card (center is FREE).''"
  by code_simp

lemma selected_24:
  assumes "length sel = 24"
  shows "[selectedAt sel 0, selectedAt sel 1, selectedAt sel 2, selectedAt sel 3,
          selectedAt sel 4, selectedAt sel 5, selectedAt sel 6, selectedAt sel 7,
          selectedAt sel 8, selectedAt sel 9, selectedAt sel 10, selectedAt sel 11,
          selectedAt sel 12, selectedAt sel 13, selectedAt sel 14, selectedAt sel 15,
          selectedAt sel 16, selectedAt sel 17, selectedAt sel 18, selectedAt sel 19,
          selectedAt sel 20, selectedAt sel 21, selectedAt sel 22, selectedAt sel 23]
         = map Str sel"
proof -
  have "map Str sel = map (\<lambda>i. Str (sel ! i)) [0..<length sel]"
    by (rule nth_equalityI) simp_all
  also have "\<dots> = map (\<lambda>i. Str (sel ! i)) [0..<24]" using assms by simp
  also have "\<dots> = map (selectedAt sel) [0..<24]" using assms by (simp add: selectedAt_def)
  finally have e: "map Str sel = map (selectedAt sel) [0..<24]" .
  have up: "[0..<24] = [0, 1, 2, 3, 4, 5, 6, 7, 8, 9, 10, 11, 12, 13, 14, 15, 16, 17, 18, 19,
                        20, 21, 22, 23 :: nat]"
    by code_simp
  show ?thesis unfolding e up by simp
qed

lemma generateBingoGrid_closed:
  assumes "24 \<le> length (cleanedWords rawWords)"
  shows "generateBingoGrid rnd rawWords =
     Inr (let sel = take 24 (shuffleArray rnd (cleanedWords rawWords)) in
          [[selectedAt sel 0, selectedAt sel 1, selectedAt sel 2, selectedAt sel 3, selectedAt sel 4],
           [selectedAt sel 5, selectedAt sel 6, selectedAt sel 7, selectedAt sel 8, selectedAt sel 9],
           [selectedAt sel 10, selectedAt sel 11, Str ''FREE'', selectedAt sel 12, selectedAt sel 13],
           [selectedAt sel 14, selectedAt sel 15, selectedAt sel 16, selectedAt sel 17, selectedAt sel 18],
           [selectedAt sel 19, selectedAt sel 20, selectedAt sel 21, selectedAt sel 22, selectedAt sel 23]])"
  using assms by (simp add: generateBingoGrid_def neededWords_24 bingoRows_closed Let_def)

text \<open>
  C8. \<open>generateBingoGrid\<close> throws exactly when fewer than 24 of the candidates are
  non-blank after trimming: then the result is the error whose message names the
  minimum, 24, and no grid; with 24 or more it returns a grid and throws nothing.
\<close>

theorem generateBingoGrid_error:
  "(generateBingoGrid rnd rawWords
      = Inl (Error (''You need at least 24 words for a 5'' @ [CHR 0xD7]
                      @ ''5 card (center is FREE).'')))
     = (length (cleanedWords rawWords) < 24)
   \<and> (\<exists>grid. generateBingoGrid rnd rawWords = Inr grid)
     = (24 \<le> length (cleanedWords rawWords))"
proof (cases "length (cleanedWords rawWords) < 24")
  case True
  then have "generateBingoGrid rnd rawWords = Inl (Error bingoMessage)"
    by (simp add: generateBingoGrid_def neededWords_24)
  then show ?thesis using True unfolding bingoMessage_text by simp
next
  case False
  then have "24 \<le> length (cleanedWords rawWords)" by simp
  from generateBingoGrid_closed [OF this, of rnd] show ?thesis using False by simp
qed

theorem generateBingoGrid_error_witness:
  "length (cleanedWords (replicate 23 ''word'' @ [''  '', []])) < 24
   \<and> generateBingoGrid (\<lambda>k. k) (replicate 23 ''word'' @ [''  '', []])
      = Inl (Error (''You need at least 24 words for a 5'' @ [CHR 0xD7]
                      @ ''5 card (center is FREE).''))
   \<and> 24 \<le> length (cleanedWords (replicate 24 ''word'' @ [''  '', []]))
   \<and> (\<exists>grid. generateBingoGrid (\<lambda>k. k) (replicate 24 ''word'' @ [''  '', []]) = Inr grid)"
proof -
  have a: "length (cleanedWords (replicate 23 ''word'' @ [''  '', []])) < 24" by code_simp
  have b: "24 \<le> length (cleanedWords (replicate 24 ''word'' @ [''  '', []]))" by code_simp
  from a generateBingoGrid_error [of "\<lambda>k. k" "replicate 23 ''word'' @ [''  '', []]"]
  have a': "generateBingoGrid (\<lambda>k. k) (replicate 23 ''word'' @ [''  '', []])
      = Inl (Error (''You need at least 24 words for a 5'' @ [CHR 0xD7]
                      @ ''5 card (center is FREE).''))" by simp
  from b generateBingoGrid_error [of "\<lambda>k. k" "replicate 24 ''word'' @ [''  '', []]"]
  have b': "\<exists>grid. generateBingoGrid (\<lambda>k. k) (replicate 24 ''word'' @ [''  '', []]) = Inr grid"
    by simp
  from a a' b b' show ?thesis by (intro conjI)
qed

lemma length_shuffle_loop: "length (shuffle_loop rnd copy i k) = length copy"
proof (induction rnd copy i k rule: shuffle_loop.induct)
  case (1 rnd copy i k)
  show ?case
  proof (cases "i > 0")
    case False
    then show ?thesis by (subst shuffle_loop.simps) simp
  next
    case True
    then show ?thesis using "1.IH" [OF True] by (subst shuffle_loop.simps) simp
  qed
qed

lemma shuffle_loop_above:
  "i < p \<Longrightarrow> shuffle_loop rnd copy i k ! p = copy ! p"
proof (induction rnd copy i k rule: shuffle_loop.induct)
  case (1 rnd copy i k)
  show ?case
  proof (cases "i > 0")
    case False
    then show ?thesis by (subst shuffle_loop.simps) simp
  next
    case True
    let ?j = "randomIndex rnd k (i + 1)"
    have j: "?j < i + 1" by (simp add: randomIndex_def)
    have "i - 1 < p" using "1.prems" by simp
    from "1.IH" [OF True this]
    have "shuffle_loop rnd ((copy[i := copy ! ?j])[?j := copy ! i]) (i - 1) (k + 1) ! p
            = ((copy[i := copy ! ?j])[?j := copy ! i]) ! p" .
    also have "\<dots> = copy ! p" using "1.prems" j by simp
    finally show ?thesis using True by (subst shuffle_loop.simps) simp
  qed
qed

lemma shuffle_loop_cong:
  "\<forall>k'\<ge>k. rnd k' = rnd' k' \<Longrightarrow> shuffle_loop rnd copy i k = shuffle_loop rnd' copy i k"
proof (induction rnd copy i k rule: shuffle_loop.induct)
  case (1 rnd copy i k)
  show ?case
  proof (cases "i > 0")
    case False
    then show ?thesis
      by (subst shuffle_loop.simps, subst (2) shuffle_loop.simps) simp
  next
    case True
    have e: "randomIndex rnd k (i + 1) = randomIndex rnd' k (i + 1)"
      using "1.prems" by (simp add: randomIndex_def)
    have "\<forall>k'\<ge>k + 1. rnd k' = rnd' k'" using "1.prems" by simp
    from "1.IH" [OF True this] show ?thesis
      using True e by (subst shuffle_loop.simps, subst (2) shuffle_loop.simps) simp
  qed
qed

lemma shuffle_loop_reach:
  assumes "i < length copy \<or> i = 0"
    and "mset ys = mset copy" and "drop (i + 1) ys = drop (i + 1) copy"
  shows "\<exists>rnd. shuffle_loop rnd copy i k = ys"
  using assms
proof (induction i arbitrary: copy k)
  case 0
  have len: "length ys = length copy" using "0.prems"(2) by (metis size_mset)
  have "ys = copy"
  proof (cases copy)
    case Nil
    then show ?thesis using len by simp
  next
    case (Cons c cs)
    then obtain y ys' where y: "ys = y # ys'" using len by (cases ys) simp_all
    have t: "ys' = cs" using "0.prems"(3) y Cons by simp
    have "y = c" using "0.prems"(2) y Cons t by simp
    then show ?thesis using y Cons t by simp
  qed
  moreover have "shuffle_loop rnd copy 0 k = copy" for rnd :: "nat \<Rightarrow> nat"
    by (subst shuffle_loop.simps) simp
  ultimately show ?case by simp
next
  case (Suc i)
  have il: "Suc i < length copy" using Suc.prems(1) by simp
  have len: "length ys = length copy" using Suc.prems(2) by (metis size_mset)
  have "mset (take (Suc i + 1) ys) + mset (drop (Suc i + 1) ys)
          = mset (take (Suc i + 1) copy) + mset (drop (Suc i + 1) copy)"
    using Suc.prems(2) by (metis append_take_drop_id mset_append)
  then have mt: "mset (take (Suc i + 1) ys) = mset (take (Suc i + 1) copy)"
    using Suc.prems(3) by simp
  have "ys ! Suc i \<in> set (take (Suc i + 1) ys)"
    using il len by (simp add: in_set_conv_nth) (metis lessI min.absorb2 Suc_leI nth_take less_imp_le)
  then have "ys ! Suc i \<in> set (take (Suc i + 1) copy)" using mt by (metis set_mset_mset)
  then obtain j where j: "j < Suc i + 1" "copy ! j = ys ! Suc i"
    using il by (auto simp: in_set_conv_nth)
  have jl: "j < length copy" using j(1) il by simp
  let ?c = "(copy[Suc i := copy ! j])[j := copy ! Suc i]"
  have ci: "?c ! Suc i = ys ! Suc i"
    using j(2) il jl by (cases "j = Suc i") (simp_all add: nth_list_update)
  have dr: "drop (Suc i + 1) ?c = drop (Suc i + 1) copy"
    using j(1) by simp
  have lc: "length ?c = length copy" by simp
  have "drop (Suc i) ?c = ?c ! Suc i # drop (Suc (Suc i)) ?c"
    using il lc by (metis Cons_nth_drop_Suc)
  moreover have "drop (Suc i) ys = ys ! Suc i # drop (Suc (Suc i)) ys"
    using il len by (metis Cons_nth_drop_Suc)
  ultimately have d: "drop (i + 1) ys = drop (i + 1) ?c"
    using ci dr Suc.prems(3) by simp
  have ms: "mset ys = mset ?c" using Suc.prems(2) mset_swap [OF jl il] by simp
  have p1: "i < length ?c \<or> i = 0" using il by simp
  from Suc.IH [OF p1 ms d, of "k + 1"] obtain rnd' where
    r: "shuffle_loop rnd' ?c i (k + 1) = ys" by blast
  let ?rnd = "rnd'(k := j)"
  have ri: "randomIndex ?rnd k (Suc i + 1) = j" using j(1) by (simp add: randomIndex_def)
  have "shuffle_loop ?rnd copy (Suc i) k = shuffle_loop ?rnd ?c i (k + 1)"
    using ri by (subst shuffle_loop.simps) (simp del: fun_upd_apply)
  also have "\<dots> = shuffle_loop rnd' ?c i (k + 1)"
    by (rule shuffle_loop_cong) simp
  finally have "shuffle_loop ?rnd copy (Suc i) k = ys" using r by simp
  then show ?case by blast
qed

lemma shuffleArray_reach:
  assumes "mset ys = mset arr"
  shows "\<exists>rnd. shuffleArray rnd arr = ys"
proof -
  have len: "length ys = length arr" using assms by (metis size_mset)
  have a: "length arr - 1 < length arr \<or> length arr - 1 = 0" by (cases arr) simp_all
  have "drop (length arr - 1 + 1) ys = drop (length arr - 1 + 1) arr"
    using len by (cases arr) simp_all
  from shuffle_loop_reach [OF a assms this] show ?thesis by (simp add: shuffleArray_def)
qed

lemma shuffleArray_last:
  assumes "arr \<noteq> []"
  shows "shuffleArray rnd arr ! (length arr - 1) = arr ! randomIndex rnd 0 (length arr)"
proof (cases "length arr - 1 > 0")
  case False
  then have l: "length arr = 1" using assms by (cases arr) simp_all
  have "shuffleArray rnd arr = arr"
    unfolding shuffleArray_def using l by (subst shuffle_loop.simps) simp
  then show ?thesis using l by (simp add: randomIndex_def)
next
  case True
  let ?i = "length arr - 1"
  let ?j = "randomIndex rnd 0 (?i + 1)"
  let ?c = "(arr[?i := arr ! ?j])[?j := arr ! ?i]"
  have n: "?i + 1 = length arr" using assms by (cases arr) simp_all
  have j: "?j < length arr" unfolding n using assms by (simp add: randomIndex_def)
  have "shuffleArray rnd arr = shuffle_loop rnd ?c (?i - 1) (0 + 1)"
    unfolding shuffleArray_def using True by (subst shuffle_loop.simps) simp
  then have "shuffleArray rnd arr ! ?i = ?c ! ?i"
    using shuffle_loop_above [of "?i - 1" ?i rnd ?c "0 + 1"] True by simp
  also have "\<dots> = arr ! ?j"
    using j True by (cases "?j = ?i") (simp_all add: nth_list_update)
  finally show ?thesis unfolding n .
qed

text \<open>
  C9. With at least 24 cleaned words \<open>generateBingoGrid\<close> returns a grid of 5 rows
  of 5 cells whose centre (row 2, column 2) is the string FREE and whose other 24 cells,
  in row-major order, are the first 24 words of \<open>shuffleArray\<close> of the cleaned list.
  That shuffle is a permutation of the list; its last word is the word of the list at
  the index of the first draw; and every arrangement of the list is the shuffle for
  some random source, so every arrangement's first 24 words are the card for some
  random source. With exactly 24 cleaned words the 24 cells off the centre are a
  permutation of the cleaned input words, and the last cell (row 4, column 4) holds the
  word at the index of the first draw.
\<close>

theorem generateBingoGrid_grid:
  assumes "24 \<le> length (cleanedWords rawWords)"
  shows "(\<exists>grid. generateBingoGrid rnd rawWords = Inr grid
       \<and> squareGrid 5 grid
       \<and> getCell grid 2 2 = Inr (Str ''FREE'')
       \<and> nonCenterCells grid = map Str (take 24 (shuffleArray rnd (cleanedWords rawWords)))
       \<and> mset (shuffleArray rnd (cleanedWords rawWords)) = mset (cleanedWords rawWords)
       \<and> shuffleArray rnd (cleanedWords rawWords) ! (length (cleanedWords rawWords) - 1)
           = cleanedWords rawWords ! randomIndex rnd 0 (length (cleanedWords rawWords))
       \<and> (length (cleanedWords rawWords) = 24 \<longrightarrow>
            mset (nonCenterCells grid) = mset (map Str (cleanedWords rawWords))
            \<and> getCell grid 4 4
                = Inr (Str (cleanedWords rawWords ! randomIndex rnd 0 24))))
   \<and> (\<forall>ys. mset ys = mset (cleanedWords rawWords) \<longrightarrow>
        (\<exists>rnd' grid'. generateBingoGrid rnd' rawWords = Inr grid'
            \<and> shuffleArray rnd' (cleanedWords rawWords) = ys
            \<and> nonCenterCells grid' = map Str (take 24 ys)))"
proof -
  let ?pool = "cleanedWords rawWords"
  have card: "\<exists>grid. generateBingoGrid r rawWords = Inr grid
       \<and> squareGrid 5 grid
       \<and> getCell grid 2 2 = Inr (Str ''FREE'')
       \<and> nonCenterCells grid = map Str (take 24 (shuffleArray r ?pool))
       \<and> getCell grid 4 4 = Inr (Str (take 24 (shuffleArray r ?pool) ! 23))"
    for r
  proof -
    let ?sel = "take 24 (shuffleArray r ?pool)"
    let ?g = "[[selectedAt ?sel 0, selectedAt ?sel 1, selectedAt ?sel 2, selectedAt ?sel 3, selectedAt ?sel 4],
           [selectedAt ?sel 5, selectedAt ?sel 6, selectedAt ?sel 7, selectedAt ?sel 8, selectedAt ?sel 9],
           [selectedAt ?sel 10, selectedAt ?sel 11, Str ''FREE'', selectedAt ?sel 12, selectedAt ?sel 13],
           [selectedAt ?sel 14, selectedAt ?sel 15, selectedAt ?sel 16, selectedAt ?sel 17, selectedAt ?sel 18],
           [selectedAt ?sel 19, selectedAt ?sel 20, selectedAt ?sel 21, selectedAt ?sel 22, selectedAt ?sel 23]]"
    have g: "generateBingoGrid r rawWords = Inr ?g"
      using generateBingoGrid_closed [OF assms, of r] by (simp add: Let_def)
    have len: "length ?sel = 24" using assms by (simp add: length_shuffleArray)
    have sq: "squareGrid 5 ?g" by (simp add: squareGrid_def)
    have ce: "getCell ?g 2 2 = Inr (Str ''FREE'')" by (simp add: getCell_def getElem_def)
    have nc: "nonCenterCells ?g = map Str ?sel"
      unfolding selected_24 [OF len, symmetric] by (simp add: nonCenterCells_def)
    have "selectedAt ?sel 23 = Str (?sel ! 23)" using len by (simp add: selectedAt_def)
    then have la: "getCell ?g 4 4 = Inr (Str (?sel ! 23))"
      by (simp add: getCell_def getElem_def)
    from g sq ce nc la show ?thesis by (intro exI conjI)
  qed
  have ms: "mset (shuffleArray rnd ?pool) = mset ?pool" by (rule mset_shuffleArray)
  have ne: "?pool \<noteq> []" using assms by auto
  have lastw: "shuffleArray rnd ?pool ! (length ?pool - 1)
                 = ?pool ! randomIndex rnd 0 (length ?pool)"
    by (rule shuffleArray_last [OF ne])
  from card [of rnd] obtain grid where
    g: "generateBingoGrid rnd rawWords = Inr grid"
    and sq: "squareGrid 5 grid"
    and ce: "getCell grid 2 2 = Inr (Str ''FREE'')"
    and nc: "nonCenterCells grid = map Str (take 24 (shuffleArray rnd ?pool))"
    and la: "getCell grid 4 4 = Inr (Str (take 24 (shuffleArray rnd ?pool) ! 23))"
    by (elim exE conjE)
  have exact: "mset (nonCenterCells grid) = mset (map Str ?pool)
            \<and> getCell grid 4 4 = Inr (Str (?pool ! randomIndex rnd 0 24))"
    if l: "length ?pool = 24"
  proof -
    have t: "take 24 (shuffleArray rnd ?pool) = shuffleArray rnd ?pool"
      using l by (simp add: length_shuffleArray)
    have "mset (nonCenterCells grid) = mset (map Str (shuffleArray rnd ?pool))"
      using nc t by simp
    also have "\<dots> = image_mset Str (mset (shuffleArray rnd ?pool))" by simp
    also have "\<dots> = image_mset Str (mset ?pool)" using ms by simp
    finally have m: "mset (nonCenterCells grid) = mset (map Str ?pool)" by simp
    have "shuffleArray rnd ?pool ! 23 = ?pool ! randomIndex rnd 0 24"
      using lastw l by simp
    then have "getCell grid 4 4 = Inr (Str (?pool ! randomIndex rnd 0 24))"
      using la t by simp
    with m show ?thesis by simp
  qed
  have first: "\<exists>grid. generateBingoGrid rnd rawWords = Inr grid
       \<and> squareGrid 5 grid
       \<and> getCell grid 2 2 = Inr (Str ''FREE'')
       \<and> nonCenterCells grid = map Str (take 24 (shuffleArray rnd ?pool))
       \<and> mset (shuffleArray rnd ?pool) = mset ?pool
       \<and> shuffleArray rnd ?pool ! (length ?pool - 1)
           = ?pool ! randomIndex rnd 0 (length ?pool)
       \<and> (length ?pool = 24 \<longrightarrow>
            mset (nonCenterCells grid) = mset (map Str ?pool)
            \<and> getCell grid 4 4 = Inr (Str (?pool ! randomIndex rnd 0 24)))"
  proof (intro exI conjI impI)
    show "generateBingoGrid rnd rawWords = Inr grid" by (rule g)
    show "squareGrid 5 grid" by (rule sq)
    show "getCell grid 2 2 = Inr (Str ''FREE'')" by (rule ce)
    show "nonCenterCells grid = map Str (take 24 (shuffleArray rnd ?pool))" by (rule nc)
    show "mset (shuffleArray rnd ?pool) = mset ?pool" by (rule ms)
    show "shuffleArray rnd ?pool ! (length ?pool - 1)
           = ?pool ! randomIndex rnd 0 (length ?pool)" by (rule lastw)
    show "mset (nonCenterCells grid) = mset (map Str ?pool)" if "length ?pool = 24"
      using exact [OF that] by (rule conjunct1)
    show "getCell grid 4 4 = Inr (Str (?pool ! randomIndex rnd 0 24))"
      if "length ?pool = 24"
      using exact [OF that] by (rule conjunct2)
  qed
  have second: "\<exists>rnd' grid'. generateBingoGrid rnd' rawWords = Inr grid'
            \<and> shuffleArray rnd' ?pool = ys
            \<and> nonCenterCells grid' = map Str (take 24 ys)"
    if "mset ys = mset ?pool" for ys
  proof -
    from shuffleArray_reach [OF that] obtain rnd' where r: "shuffleArray rnd' ?pool = ys"
      by blast
    from card [of rnd'] obtain grid' where
      "generateBingoGrid rnd' rawWords = Inr grid'"
      "nonCenterCells grid' = map Str (take 24 (shuffleArray rnd' ?pool))"
      by (elim exE conjE)
    with r show ?thesis by (intro exI conjI) simp_all
  qed
  from first second show ?thesis by blast
qed

theorem generateBingoGrid_grid_witness:
  "24 \<le> length (cleanedWords defaultWords)
   \<and> generateBingoGrid (\<lambda>k. 7 * k + 3) defaultWords
       = Inr [[Str ''Orange'', Str ''Elderberry'', Str ''Kiwi'', Str ''Fig'', Str ''Xigua''],
              [Str ''Yam'', Str ''Honeydew'', Str ''Raspberry'', Str ''Ugli Fruit'',
               Str ''Strawberry''],
              [Str ''Quince'', Str ''Papaya'', Str ''FREE'', Str ''Cherry'',
               Str ''Watermelon''],
              [Str ''Grape'', Str ''Vanilla'', Str ''Banana'', Str ''Lemon'', Str ''Apple''],
              [Str ''Nectarine'', Str ''Zucchini'', Str ''Tomato'', Str ''Mango'',
               Str ''Date'']]
   \<and> (\<exists>grid. generateBingoGrid (\<lambda>k. 7 * k + 3) defaultWords = Inr grid
         \<and> getCell grid 2 2 = Inr (Str ''FREE'')
         \<and> nonCenterCells grid
             = map Str [''Orange'', ''Elderberry'', ''Kiwi'', ''Fig'', ''Xigua'', ''Yam'',
                 ''Honeydew'', ''Raspberry'', ''Ugli Fruit'', ''Strawberry'', ''Quince'',
                 ''Papaya'', ''Cherry'', ''Watermelon'', ''Grape'', ''Vanilla'', ''Banana'',
                 ''Lemon'', ''Apple'', ''Nectarine'', ''Zucchini'', ''Tomato'', ''Mango'',
                 ''Date'']
         \<and> getCell grid 4 4 = Inr (Str ''Date'')
         \<and> mset (nonCenterCells grid) = mset (map Str defaultWords))
   \<and> (\<exists>rnd' grid'. generateBingoGrid rnd' defaultWords = Inr grid'
         \<and> nonCenterCells grid' = map Str (rev defaultWords))"
proof -
  let ?rnd = "\<lambda>k. 7 * k + 3 :: nat"
  have c: "cleanedWords defaultWords = defaultWords" by code_simp
  have l: "length defaultWords = 24" by code_simp
  have a: "24 \<le> length (cleanedWords defaultWords)" unfolding c l by simp
  have ev: "generateBingoGrid ?rnd defaultWords
       = Inr [[Str ''Orange'', Str ''Elderberry'', Str ''Kiwi'', Str ''Fig'', Str ''Xigua''],
              [Str ''Yam'', Str ''Honeydew'', Str ''Raspberry'', Str ''Ugli Fruit'',
               Str ''Strawberry''],
              [Str ''Quince'', Str ''Papaya'', Str ''FREE'', Str ''Cherry'',
               Str ''Watermelon''],
              [Str ''Grape'', Str ''Vanilla'', Str ''Banana'', Str ''Lemon'', Str ''Apple''],
              [Str ''Nectarine'', Str ''Zucchini'', Str ''Tomato'', Str ''Mango'',
               Str ''Date'']]"
    by code_simp
  have sh: "take 24 (shuffleArray ?rnd defaultWords)
             = [''Orange'', ''Elderberry'', ''Kiwi'', ''Fig'', ''Xigua'', ''Yam'',
                 ''Honeydew'', ''Raspberry'', ''Ugli Fruit'', ''Strawberry'', ''Quince'',
                 ''Papaya'', ''Cherry'', ''Watermelon'', ''Grape'', ''Vanilla'', ''Banana'',
                 ''Lemon'', ''Apple'', ''Nectarine'', ''Zucchini'', ''Tomato'', ''Mango'',
                 ''Date'']"
    by code_simp
  have d: "defaultWords ! randomIndex ?rnd 0 24 = ''Date''" by code_simp
  note th = generateBingoGrid_grid [OF a, of ?rnd]
  from conjunct1 [OF th] obtain grid where
    g: "generateBingoGrid ?rnd defaultWords = Inr grid"
    and f: "getCell grid 2 2 = Inr (Str ''FREE'')"
    and nc: "nonCenterCells grid
               = map Str (take 24 (shuffleArray ?rnd (cleanedWords defaultWords)))"
    and p: "length (cleanedWords defaultWords) = 24 \<longrightarrow>
            mset (nonCenterCells grid) = mset (map Str (cleanedWords defaultWords))
            \<and> getCell grid 4 4
                = Inr (Str (cleanedWords defaultWords ! randomIndex ?rnd 0 24))"
    by (elim exE conjE)
  from p have m: "mset (nonCenterCells grid) = mset (map Str defaultWords)"
    and la: "getCell grid 4 4 = Inr (Str (defaultWords ! randomIndex ?rnd 0 24))"
    unfolding c l by simp_all
  have la': "getCell grid 4 4 = Inr (Str ''Date'')" using la unfolding d .
  have nc': "nonCenterCells grid
             = map Str [''Orange'', ''Elderberry'', ''Kiwi'', ''Fig'', ''Xigua'', ''Yam'',
                 ''Honeydew'', ''Raspberry'', ''Ugli Fruit'', ''Strawberry'', ''Quince'',
                 ''Papaya'', ''Cherry'', ''Watermelon'', ''Grape'', ''Vanilla'', ''Banana'',
                 ''Lemon'', ''Apple'', ''Nectarine'', ''Zucchini'', ''Tomato'', ''Mango'',
                 ''Date'']"
    using nc unfolding c sh .
  from g f nc' la' m have one: "\<exists>grid. generateBingoGrid ?rnd defaultWords = Inr grid
         \<and> getCell grid 2 2 = Inr (Str ''FREE'')
         \<and> nonCenterCells grid
             = map Str [''Orange'', ''Elderberry'', ''Kiwi'', ''Fig'', ''Xigua'', ''Yam'',
                 ''Honeydew'', ''Raspberry'', ''Ugli Fruit'', ''Strawberry'', ''Quince'',
                 ''Papaya'', ''Cherry'', ''Watermelon'', ''Grape'', ''Vanilla'', ''Banana'',
                 ''Lemon'', ''Apple'', ''Nectarine'', ''Zucchini'', ''Tomato'', ''Mango'',
                 ''Date'']
         \<and> getCell grid 4 4 = Inr (Str ''Date'')
         \<and> mset (nonCenterCells grid) = mset (map Str defaultWords)"
    by (intro exI conjI)
  have "mset (rev defaultWords) = mset (cleanedWords defaultWords)" unfolding c by simp
  from mp [OF spec [OF conjunct2 [OF th]] this] obtain rnd' grid' where
    g': "generateBingoGrid rnd' defaultWords = Inr grid'"
    and n': "nonCenterCells grid' = map Str (take 24 (rev defaultWords))"
    by (elim exE conjE)
  have "take 24 (rev defaultWords) = rev defaultWords" using l by simp
  with g' n' have two: "\<exists>rnd' grid'. generateBingoGrid rnd' defaultWords = Inr grid'
         \<and> nonCenterCells grid' = map Str (rev defaultWords)"
    by (intro exI conjI) simp_all
  from a ev one two show ?thesis by (intro conjI)
qed


lemma cwStep_refl: "cwStep grid grid"
  by (simp add: cwStep_def)

lemma cwStep_trans:
  assumes a: "cwStep g1 g2" and b: "cwStep g2 g3"
  shows "cwStep g1 g3"
proof -
  have l: "length g3 = length g1" using a b by (simp add: cwStep_def)
  have k: "getCell g3 r c = Inr v" if "getCell g1 r c = Inr v" "v \<noteq> Null" for r c v
  proof -
    have "getCell g2 r c = Inr v" using a that unfolding cwStep_def by blast
    then show ?thesis using b that(2) unfolding cwStep_def by blast
  qed
  have m: "getCell g3 r c = getCell g1 r c \<or> (\<exists>ch. getCell g3 r c = Inr (Str [ch]))" for r c
  proof -
    from b have "getCell g3 r c = getCell g2 r c \<or> (\<exists>ch. getCell g3 r c = Inr (Str [ch]))"
      unfolding cwStep_def by blast
    moreover from a have "getCell g2 r c = getCell g1 r c \<or> (\<exists>ch. getCell g2 r c = Inr (Str [ch]))"
      unfolding cwStep_def by blast
    ultimately show ?thesis by auto
  qed
  show ?thesis unfolding cwStep_def using l k m by blast
qed

lemma committed_cwStep:
  assumes c: "committed grid grid' word start step"
  shows "cwStep grid grid'"
proof -
  have ir0: "\<forall>j. 0 \<le> j \<and> j < length word \<longrightarrow>
          inRange grid (fst start + fst step * int j) (snd start + snd step * int j)"
    using c lineOk_inRange unfolding committed_def by blast
  from writeWord_cells [OF ir0] c have
    cells: "\<forall>r c. getCell grid' r c = getCell grid r c
                 \<or> (\<exists>j. 0 \<le> j \<and> j < length word \<and> r = fst start + fst step * int j
                        \<and> c = snd start + snd step * int j
                        \<and> getCell grid' r c = Inr (Str [word ! j]))"
    unfolding committed_def by auto
  have l: "length grid' = length grid" using committed_shape [OF c] by (metis length_map)
  have m: "getCell grid' r c = getCell grid r c \<or> (\<exists>ch. getCell grid' r c = Inr (Str [ch]))"
    for r c using cells by blast
  show ?thesis unfolding cwStep_def using l m committed_keeps [OF c] by blast
qed

lemma checkLine_total:
  assumes "\<forall>j. j0 \<le> j \<and> j < length word \<longrightarrow>
             0 \<le> r0 + dr * int j \<and> r0 + dr * int j < int (length grid)"
  shows "\<exists>b. checkLine grid word r0 c0 dr dc j0 = Inr b"
  using assms
proof (induction grid word r0 c0 dr dc j0 rule: checkLine.induct)
  case (1 grid word r0 c0 dr dc j)
  show ?case
  proof (cases "j < length word")
    case False
    then have "checkLine grid word r0 c0 dr dc j = Inr True"
      by (subst checkLine.simps) simp
    then show ?thesis by (rule exI)
  next
    case True
    then have "0 \<le> r0 + dr * int j \<and> r0 + dr * int j < int (length grid)"
      using "1.prems" by simp
    then obtain cell where g: "getCell grid (r0 + dr * int j) (c0 + dc * int j) = Inr cell"
      by (simp add: getCell_def)
    show ?thesis
    proof (cases "cell \<noteq> Null \<and> cell \<noteq> Str [word ! j]")
      case bad: True
      have "checkLine grid word r0 c0 dr dc j = Inr False"
        using True g bad by (subst checkLine.simps) simp
      then show ?thesis by (rule exI)
    next
      case good: False
      have step: "checkLine grid word r0 c0 dr dc j = checkLine grid word r0 c0 dr dc (j + 1)"
        by (subst checkLine.simps) (simp only: True g good if_True if_False sum.case)
      have "\<forall>j'. j + 1 \<le> j' \<and> j' < length word \<longrightarrow>
             0 \<le> r0 + dr * int j' \<and> r0 + dr * int j' < int (length grid)"
        using "1.prems" by simp
      from "1.IH" [OF True g good this] show ?thesis unfolding step .
    qed
  qed
qed

lemma tryPlaceWord_total:
  assumes "0 \<le> row" and "row < int (length grid)"
  shows "\<exists>res grid'. tryPlaceWord grid entry row col direction indexInWord = Inr (res, grid')"
proof -
  let ?w = "entry_answer entry"
  have wr: "\<exists>g2. writeWord grid ?w r0 c0 dr dc 0 = Inr g2"
    if "checkLine grid ?w r0 c0 dr dc 0 = Inr True" for r0 c0 dr dc
  proof -
    from checkLine_iff [OF that]
    have "\<forall>j. 0 \<le> j \<and> j < length ?w \<longrightarrow> lineOk grid ?w r0 c0 dr dc j" by simp
    then have "\<forall>j. 0 \<le> j \<and> j < length ?w \<longrightarrow> inRange grid (r0 + dr * int j) (c0 + dc * int j)"
      using lineOk_inRange by blast
    from writeWord_cells [OF this] show ?thesis by blast
  qed
  show ?thesis
  proof (cases "direction = Across")
    case True
    have "\<forall>j. 0 \<le> j \<and> j < length ?w \<longrightarrow>
             0 \<le> row + 0 * int j \<and> row + 0 * int j < int (length grid)"
      using assms by simp
    from checkLine_total [OF this] obtain b where
      b: "checkLine grid ?w row (col - int indexInWord) 0 1 0 = Inr b" by blast
    show ?thesis
    proof (cases b)
      case False
      then show ?thesis using True b by (simp add: tryPlaceWord_def)
    next
      case t: True
      have "checkLine grid ?w row (col - int indexInWord) 0 1 0 = Inr True" using b t by simp
      from wr [OF this] obtain g2 where
        "writeWord grid ?w row (col - int indexInWord) 0 1 0 = Inr g2" by (elim exE)
      then show ?thesis using True b t by (simp add: tryPlaceWord_def)
    qed
  next
    case False
    show ?thesis
    proof (cases "length ?w = 0 \<or> row - int indexInWord < 0
            \<or> row - int indexInWord + int (length ?w) - 1 \<ge> int (length grid)")
      case True
      then show ?thesis using False by (auto simp: tryPlaceWord_def)
    next
      case inb: False
      then have "\<forall>j. 0 \<le> j \<and> j < length ?w \<longrightarrow>
             0 \<le> row - int indexInWord + 1 * int j
             \<and> row - int indexInWord + 1 * int j < int (length grid)"
        by auto
      from checkLine_total [OF this] obtain b where
        b: "checkLine grid ?w (row - int indexInWord) col 1 0 0 = Inr b" by blast
      show ?thesis
      proof (cases b)
        case f: False
        then show ?thesis using False inb b by (simp add: tryPlaceWord_def)
      next
        case t: True
        have "checkLine grid ?w (row - int indexInWord) col 1 0 0 = Inr True" using b t by simp
        from wr [OF this] obtain g2 where
          "writeWord grid ?w (row - int indexInWord) col 1 0 0 = Inr g2" by (elim exE)
        then show ?thesis using False inb b t by (simp add: tryPlaceWord_def)
      qed
    qed
  qed
qed

lemma tryPlaceWord_step:
  assumes "0 \<le> row" and "row < int (length grid)"
  shows "\<exists>res grid'. tryPlaceWord grid entry row col direction indexInWord = Inr (res, grid')
           \<and> cwStep grid grid' \<and> (res = None \<longrightarrow> grid' = grid)"
proof -
  from tryPlaceWord_total [OF assms] obtain res grid' where
    t: "tryPlaceWord grid entry row col direction indexInWord = Inr (res, grid')" by blast
  from tryPlaceWord_result [OF t] have "cwStep grid grid' \<and> (res = None \<longrightarrow> grid' = grid)"
  proof
    assume "res = None \<and> grid' = grid"
    then show ?thesis using cwStep_refl by simp
  next
    assume "res = Some (fst (lineStart direction row col indexInWord),
                         snd (lineStart direction row col indexInWord), direction)
              \<and> entry_answer entry \<noteq> []
              \<and> committed grid grid' (entry_answer entry)
                   (lineStart direction row col indexInWord) (lineStep direction)"
    then have "cwStep grid grid'" and "res \<noteq> None" using committed_cwStep by blast+
    then show ?thesis by auto
  qed
  then have c: "cwStep grid grid'" and n: "res = None \<longrightarrow> grid' = grid" by simp_all
  from t c n show ?thesis by (intro exI conjI)
qed

lemma cwStep_length: "cwStep grid grid' \<Longrightarrow> length grid' = length grid"
  by (simp add: cwStep_def)

lemma scanCols_step:
  assumes "r < length grid"
  shows "\<exists>res grid'. scanCols grid entry sz wi r c = Inr (res, grid') \<and> cwStep grid grid'"
  using assms
proof (induction "sz - c" arbitrary: c grid)
  case 0
  then have "scanCols grid entry sz wi r c = Inr (None, grid)"
    by (subst scanCols.simps) simp
  then show ?case using cwStep_refl by simp
next
  case (Suc n)
  then have lt: "c < sz" by simp
  have rr: "0 \<le> int r" "int r < int (length grid)" using Suc.prems by simp_all
  obtain cell where g: "getCell grid (int r) (int c) = Inr cell"
    using rr by (simp add: getCell_def)
  have n: "n = sz - (c + 1)" using Suc.hyps(2) by simp
  show ?case
  proof (cases "cell = Str [entry_answer entry ! wi]")
    case False
    have step: "scanCols grid entry sz wi r c = scanCols grid entry sz wi r (c + 1)"
      using lt g False by (subst scanCols.simps) simp
    from Suc.hyps(1) [OF n Suc.prems] show ?thesis unfolding step .
  next
    case True
    from tryPlaceWord_step [OF rr, of entry "int c" Across wi] obtain res1 g1 where
      t1: "tryPlaceWord grid entry (int r) (int c) Across wi = Inr (res1, g1)"
      and s1: "cwStep grid g1" and n1: "res1 = None \<longrightarrow> g1 = grid"
      by (elim exE conjE)
    show ?thesis
    proof (cases res1)
      case (Some a)
      obtain row col d where a: "a = (row, col, d)" by (cases a)
      have "scanCols grid entry sz wi r c = Inr (Some (row, col, Across), g1)"
        using lt g True t1 Some a by (subst scanCols.simps) simp
      then show ?thesis using s1 by simp
    next
      case None
      then have g1: "g1 = grid" using n1 by simp
      from tryPlaceWord_step [OF rr, of entry "int c" Down wi] obtain res2 g2 where
        t2: "tryPlaceWord grid entry (int r) (int c) Down wi = Inr (res2, g2)"
        and s2: "cwStep grid g2" and n2: "res2 = None \<longrightarrow> g2 = grid"
        by (elim exE conjE)
      show ?thesis
      proof (cases res2)
        case (Some a)
        obtain row col d where a: "a = (row, col, d)" by (cases a)
        have "scanCols grid entry sz wi r c = Inr (Some (row, col, Down), g2)"
          using lt g True t1 None g1 t2 Some a by (subst scanCols.simps) simp
        then show ?thesis using s2 by simp
      next
        case n2': None
        then have g2: "g2 = grid" using n2 by simp
        have step: "scanCols grid entry sz wi r c = scanCols grid entry sz wi r (c + 1)"
          using lt g True t1 None g1 t2 n2' g2 by (subst scanCols.simps) simp
        from Suc.hyps(1) [OF n Suc.prems] show ?thesis unfolding step .
      qed
    qed
  qed
qed

lemma scanRows_step:
  assumes "sz \<le> length grid"
  shows "\<exists>res grid'. scanRows grid entry sz wi r = Inr (res, grid') \<and> cwStep grid grid'"
  using assms
proof (induction "sz - r" arbitrary: r grid)
  case 0
  then have "scanRows grid entry sz wi r = Inr (None, grid)"
    by (subst scanRows.simps) simp
  then show ?case using cwStep_refl by simp
next
  case (Suc n)
  then have lt: "r < sz" by simp
  then have rl: "r < length grid" using Suc.prems by simp
  have n: "n = sz - (r + 1)" using Suc.hyps(2) by simp
  from scanCols_step [OF rl, of entry sz wi 0] obtain res1 g1 where
    c1: "scanCols grid entry sz wi r 0 = Inr (res1, g1)" and s1: "cwStep grid g1"
    by (elim exE conjE)
  show ?case
  proof (cases res1)
    case (Some a)
    have "scanRows grid entry sz wi r = Inr (Some a, g1)"
      using lt c1 Some by (subst scanRows.simps) simp
    then show ?thesis using s1 by simp
  next
    case None
    have step: "scanRows grid entry sz wi r = scanRows g1 entry sz wi (r + 1)"
      using lt c1 None by (subst scanRows.simps) simp
    have "sz \<le> length g1" using Suc.prems cwStep_length [OF s1] by simp
    from Suc.hyps(1) [OF n this] obtain res grid' where
      "scanRows g1 entry sz wi (r + 1) = Inr (res, grid')" "cwStep g1 grid'"
      by (elim exE conjE)
    then show ?thesis unfolding step using cwStep_trans [OF s1] by blast
  qed
qed

lemma scanLetters_step:
  assumes "sz \<le> length grid"
  shows "\<exists>res grid'. scanLetters grid entry sz wi = Inr (res, grid') \<and> cwStep grid grid'"
  using assms
proof (induction "length (entry_answer entry) - wi" arbitrary: wi grid)
  case 0
  then have "scanLetters grid entry sz wi = Inr (None, grid)"
    by (subst scanLetters.simps) simp
  then show ?case using cwStep_refl by simp
next
  case (Suc n)
  then have lt: "wi < length (entry_answer entry)" by simp
  have n: "n = length (entry_answer entry) - (wi + 1)" using Suc.hyps(2) by simp
  from scanRows_step [OF Suc.prems, of entry wi 0] obtain res1 g1 where
    c1: "scanRows grid entry sz wi 0 = Inr (res1, g1)" and s1: "cwStep grid g1"
    by (elim exE conjE)
  show ?case
  proof (cases res1)
    case (Some a)
    have "scanLetters grid entry sz wi = Inr (Some a, g1)"
      using lt c1 Some by (subst scanLetters.simps) simp
    then show ?thesis using s1 by simp
  next
    case None
    have step: "scanLetters grid entry sz wi = scanLetters g1 entry sz (wi + 1)"
      using lt c1 None by (subst scanLetters.simps) simp
    have "sz \<le> length g1" using Suc.prems cwStep_length [OF s1] by simp
    from Suc.hyps(1) [OF n this] obtain res grid' where
      "scanLetters g1 entry sz (wi + 1) = Inr (res, grid')" "cwStep g1 grid'"
      by (elim exE conjE)
    then show ?thesis unfolding step using cwStep_trans [OF s1] by blast
  qed
qed

lemma placeRemaining_step:
  assumes "sz \<le> length grid"
  shows "\<exists>grid' entries'. placeRemaining grid entries sz idx = Inr (grid', entries')
           \<and> cwStep grid grid' \<and> length entries' = length entries
           \<and> (\<forall>i<idx. entries' ! i = entries ! i)"
  using assms
proof (induction "length entries - idx" arbitrary: idx grid entries)
  case 0
  then have "placeRemaining grid entries sz idx = Inr (grid, entries)"
    by (subst placeRemaining.simps) simp
  then show ?case using cwStep_refl by simp
next
  case (Suc n)
  then have lt: "idx < length entries" by simp
  have n: "n = length entries - (idx + 1)" using Suc.hyps(2) by simp
  show ?case
  proof (cases "entry_answer (entries ! idx) = []")
    case True
    have step: "placeRemaining grid entries sz idx = placeRemaining grid entries sz (idx + 1)"
      using lt True by (subst placeRemaining.simps) simp
    from Suc.hyps(1) [OF n Suc.prems] obtain grid' entries' where
      "placeRemaining grid entries sz (idx + 1) = Inr (grid', entries')"
      "cwStep grid grid'" "length entries' = length entries"
      "\<forall>i<idx + 1. entries' ! i = entries ! i"
      by (elim exE conjE)
    then show ?thesis unfolding step by auto
  next
    case False
    from scanLetters_step [OF Suc.prems, of "entries ! idx" 0] obtain res1 g1 where
      c1: "scanLetters grid (entries ! idx) sz 0 = Inr (res1, g1)" and s1: "cwStep grid g1"
      by (elim exE conjE)
    have l1: "sz \<le> length g1" using Suc.prems cwStep_length [OF s1] by simp
    show ?thesis
    proof (cases res1)
      case None
      have step: "placeRemaining grid entries sz idx = placeRemaining g1 entries sz (idx + 1)"
        using lt False c1 None by (subst placeRemaining.simps) simp
      from Suc.hyps(1) [OF n l1] obtain grid' entries' where
        "placeRemaining g1 entries sz (idx + 1) = Inr (grid', entries')"
        "cwStep g1 grid'" "length entries' = length entries"
        "\<forall>i<idx + 1. entries' ! i = entries ! i"
        by (elim exE conjE)
      then show ?thesis unfolding step using cwStep_trans [OF s1] by auto
    next
      case (Some a)
      obtain row col d where a: "a = (row, col, d)" by (cases a)
      let ?es = "entries[idx := (entries ! idx)
                     \<lparr>entry_placed := True, entry_row := Some row, entry_col := Some col,
                      entry_direction := Some d\<rparr>]"
      have step: "placeRemaining grid entries sz idx = placeRemaining g1 ?es sz (idx + 1)"
        using lt False c1 Some a by (subst placeRemaining.simps) simp
      have n': "n = length ?es - (idx + 1)" using n by simp
      from Suc.hyps(1) [OF n' l1] obtain grid' entries' where
        "placeRemaining g1 ?es sz (idx + 1) = Inr (grid', entries')"
        "cwStep g1 grid'" "length entries' = length ?es"
        "\<forall>i<idx + 1. entries' ! i = ?es ! i"
        by (elim exE conjE)
      then show ?thesis unfolding step using cwStep_trans [OF s1] by auto
    qed
  qed
qed

lemma setCell_length: "setCell grid r c v = Inr grid' \<Longrightarrow> length grid' = length grid"
  by (auto simp: setCell_def split: if_splits)

lemma writeWord_total:
  assumes "\<forall>j. i \<le> j \<and> j < length word \<longrightarrow>
             0 \<le> row + dx * int j \<and> row + dx * int j < int (length grid)
             \<and> 0 \<le> col + dy * int j"
  shows "\<exists>grid'. writeWord grid word row col dx dy i = Inr grid' \<and> length grid' = length grid"
  using assms
proof (induction grid word row col dx dy i rule: writeWord.induct)
  case (1 grid word row col dx dy i)
  show ?case
  proof (cases "i < length word")
    case False
    then show ?thesis by (subst writeWord.simps) simp
  next
    case True
    then have "0 \<le> row + dx * int i \<and> row + dx * int i < int (length grid)
             \<and> 0 \<le> col + dy * int i" using "1.prems" by simp
    then obtain g1 where sc: "setCell grid (row + dx * int i) (col + dy * int i) (Str [word ! i]) = Inr g1"
      by (simp add: setCell_def)
    have l1: "length g1 = length grid" using setCell_length [OF sc] .
    have "\<forall>j. i + 1 \<le> j \<and> j < length word \<longrightarrow>
             0 \<le> row + dx * int j \<and> row + dx * int j < int (length g1)
             \<and> 0 \<le> col + dy * int j" using "1.prems" l1 by simp
    from "1.IH" [OF True sc this] obtain grid' where
      "writeWord g1 word row col dx dy (i + 1) = Inr grid'" "length grid' = length g1"
      by (elim exE conjE)
    then show ?thesis using True sc l1 by (subst writeWord.simps) simp
  qed
qed

lemma set_sortByLength: "set (sortByLength es) = set es"
  by (simp add: sortByLength_def)

lemma sortByLength_hd:
  assumes "sortByLength es = seed # rest"
  shows "\<forall>e\<in>set es. length (entry_answer e) \<le> length (entry_answer seed)"
proof -
  have "sorted (map (\<lambda>e. - int (length (entry_answer e))) (sortByLength es))"
    unfolding sortByLength_def by (rule sorted_sort_key)
  then have "\<forall>e\<in>set rest. - int (length (entry_answer seed)) \<le> - int (length (entry_answer e))"
    using assms by simp
  moreover have "set es = insert seed (set rest)"
    using set_sortByLength [of es] assms by simp
  ultimately show ?thesis by auto
qed

lemma set_shuffleArray: "set (shuffleArray rnd arr) = set arr"
  using mset_shuffleArray [of rnd arr] by (metis set_mset_mset)

lemma getCell_createEmptyGrid_cw:
  "r < n \<Longrightarrow> c < n \<Longrightarrow> getCell (createEmptyGrid_cw n) (int r) (int c) = Inr Null"
  by (simp add: createEmptyGrid_cw_def getCell_def getElem_def)

lemma seed_column:
  assumes "len \<le> (15::nat)" and "i < len"
  shows "0 \<le> max 0 ((15 - int len) div 2) + int i"
    and "max 0 ((15 - int len) div 2) + int i < 15"
  using assms by auto

lemma shuffleArray_Nil: "shuffleArray rnd [] = []"
  unfolding shuffleArray_def by (subst shuffle_loop.simps) simp

lemma seed_written:
  assumes len: "length word \<le> GRID_SIZE"
  shows "\<exists>grid0. writeWord (createEmptyGrid_cw GRID_SIZE) word (int (GRID_SIZE div 2))
                    (max 0 ((int GRID_SIZE - int (length word)) div 2)) 0 1 0 = Inr grid0
           \<and> length grid0 = GRID_SIZE
           \<and> (\<forall>i<length word.
                 getCell grid0 (int (GRID_SIZE div 2))
                   (max 0 ((int GRID_SIZE - int (length word)) div 2) + int i)
                 = Inr (Str [word ! i]))"
proof -
  let ?g = "createEmptyGrid_cw GRID_SIZE"
  let ?row = "int (GRID_SIZE div 2)"
  let ?col = "max 0 ((int GRID_SIZE - int (length word)) div 2)"
  have ir: "\<forall>j<length word. inRange ?g (?row + 0 * int j) (?col + 1 * int j)"
    using len by (auto simp: inRange_def createEmptyGrid_cw_def GRID_SIZE_def)
  then have ir0: "\<forall>j. 0 \<le> j \<and> j < length word \<longrightarrow> inRange ?g (?row + 0 * int j) (?col + 1 * int j)"
    by simp
  from writeWord_cells [OF ir0] obtain grid0 where
    w: "writeWord ?g word ?row ?col 0 1 0 = Inr grid0"
    and ml: "map length grid0 = map length ?g"
    by (elim exE conjE)
  have l: "length grid0 = GRID_SIZE"
    using ml by (metis length_map length_replicate createEmptyGrid_cw_def)
  from writeWord_writtenAlong [OF ir w]
  have "\<forall>i<length word. getCell grid0 (?row + 0 * int i) (?col + 1 * int i) = Inr (Str [word ! i])"
    unfolding writtenAlong_def by simp
  then have "\<forall>i<length word. getCell grid0 ?row (?col + int i) = Inr (Str [word ! i])"
    by simp
  with w l show ?thesis by (intro exI conjI)
qed

lemma seed_total:
  "\<exists>grid0. writeWord (createEmptyGrid_cw GRID_SIZE) word (int (GRID_SIZE div 2))
                    (max 0 ((int GRID_SIZE - int (length word)) div 2)) 0 1 0 = Inr grid0
           \<and> length grid0 = GRID_SIZE"
proof -
  have "\<forall>j. 0 \<le> j \<and> j < length word \<longrightarrow>
             0 \<le> int (GRID_SIZE div 2) + 0 * int j
             \<and> int (GRID_SIZE div 2) + 0 * int j < int (length (createEmptyGrid_cw GRID_SIZE))
             \<and> 0 \<le> max 0 ((int GRID_SIZE - int (length word)) div 2) + 1 * int j"
    by (simp add: createEmptyGrid_cw_def GRID_SIZE_def)
  from writeWord_total [OF this] show ?thesis
    by (simp add: createEmptyGrid_cw_def)
qed

lemma generateCrossword_run:
  assumes s: "sortByLength (shuffleArray rnd entriesInput) = seed # rest"
  shows "\<exists>grid0 grid' others numbers acrossClues downClues.
      writeWord (createEmptyGrid_cw GRID_SIZE) (entry_answer seed) (int (GRID_SIZE div 2))
        (max 0 ((int GRID_SIZE - int (length (entry_answer seed))) div 2)) 0 1 0 = Inr grid0
      \<and> cwStep grid0 grid'
      \<and> length others = length rest
      \<and> generateCrossword rnd entriesInput =
          Inr (\<lparr>puzzle_grid = grid', puzzle_numbers = numbers,
                puzzle_acrossClues = acrossClues, puzzle_downClues = downClues,
                puzzle_unused = filter (\<lambda>e. \<not> entry_placed e)
                  (seed\<lparr>entry_placed := True, entry_row := Some (int (GRID_SIZE div 2)),
                     entry_col := Some (max 0 ((int GRID_SIZE
                                    - int (length (entry_answer seed))) div 2)),
                     entry_direction := Some Across\<rparr> # others)\<rparr>,
               seed\<lparr>entry_placed := True, entry_row := Some (int (GRID_SIZE div 2)),
                     entry_col := Some (max 0 ((int GRID_SIZE
                                    - int (length (entry_answer seed))) div 2)),
                     entry_direction := Some Across\<rparr> # others)
      \<and> length grid0 = GRID_SIZE
      \<and> numberAndBuildClues grid'
            (seed\<lparr>entry_placed := True, entry_row := Some (int (GRID_SIZE div 2)),
                     entry_col := Some (max 0 ((int GRID_SIZE
                                    - int (length (entry_answer seed))) div 2)),
                     entry_direction := Some Across\<rparr> # others)
          = (numbers, acrossClues, downClues)"
proof -
  let ?first = "seed\<lparr>entry_placed := True, entry_row := Some (int (GRID_SIZE div 2)),
                     entry_col := Some (max 0 ((int GRID_SIZE
                                    - int (length (entry_answer seed))) div 2)),
                     entry_direction := Some Across\<rparr>"
  from seed_total [of "entry_answer seed"] obtain grid0 where
    w: "writeWord (createEmptyGrid_cw GRID_SIZE) (entry_answer seed) (int (GRID_SIZE div 2))
          (max 0 ((int GRID_SIZE - int (length (entry_answer seed))) div 2)) 0 1 0 = Inr grid0"
    and l0: "length grid0 = GRID_SIZE"
    by (elim exE conjE)
  have le: "GRID_SIZE \<le> length grid0" using l0 by simp
  from placeRemaining_step [OF le, of "?first # rest" 1] obtain grid' entries' where
    p: "placeRemaining grid0 (?first # rest) GRID_SIZE 1 = Inr (grid', entries')"
    and st: "cwStep grid0 grid'"
    and len: "length entries' = length (?first # rest)"
    and keep: "\<forall>i<1. entries' ! i = (?first # rest) ! i"
    by (elim exE conjE)
  from len obtain e0 others where es: "entries' = e0 # others" by (cases entries') simp_all
  have "e0 = ?first" using keep es by simp
  with es have es': "entries' = ?first # others" by simp
  have lo: "length others = length rest" using len es by simp
  obtain numbers acrossClues downClues where
    nb: "numberAndBuildClues grid' entries' = (numbers, acrossClues, downClues)"
    by (cases "numberAndBuildClues grid' entries'")
  have "generateCrossword rnd entriesInput =
          Inr (\<lparr>puzzle_grid = grid', puzzle_numbers = numbers,
                puzzle_acrossClues = acrossClues, puzzle_downClues = downClues,
                puzzle_unused = filter (\<lambda>e. \<not> entry_placed e) entries'\<rparr>, entries')"
    using s w p nb by (simp add: generateCrossword_def)
  with w st lo l0 nb show ?thesis unfolding es' by (intro exI conjI)
qed

text \<open>
  C6 as stated fails for an answer longer than the grid is wide: \<open>floor((size - len)/2)\<close>
  is negative there, and the source takes \<open>Math.max(0, ...)\<close> of it.
\<close>

theorem generateCrossword_column_counterexample:
  "\<exists>puzzle first others. generateCrossword (\<lambda>k. 0) [longEntry] = Inr (puzzle, first # others)
      \<and> entry_answer first = entry_answer longEntry
      \<and> entry_placed first
      \<and> entry_col first = Some 0
      \<and> (int GRID_SIZE - int (length (entry_answer longEntry))) div 2 = - 1"
proof -
  have ev: "(case generateCrossword (\<lambda>k. 0) [longEntry] of
               Inr (puzzle, first # others) \<Rightarrow>
                 entry_answer first = entry_answer longEntry \<and> entry_placed first
                 \<and> entry_col first = Some 0
             | _ \<Rightarrow> False)"
    by code_simp
  have d: "(int GRID_SIZE - int (length (entry_answer longEntry))) div 2 = - 1"
    by code_simp
  from ev obtain puzzle first others where
    "generateCrossword (\<lambda>k. 0) [longEntry] = Inr (puzzle, first # others)"
    "entry_answer first = entry_answer longEntry" "entry_placed first" "entry_col first = Some 0"
    by (auto split: sum.splits prod.splits list.splits)
  with d show ?thesis by (intro exI conjI)
qed

text \<open>
  C6, amended. For the empty entry list \<open>generateCrossword\<close> returns the empty puzzle:
  a grid of \<open>null\<close> cells, no numbers, no clues, no unused entries. For every
  non-empty entry list it returns; the first of the sorted entries, an entry of the
  input with a longest answer, is marked placed, across, with row \<open>floor(size/2)\<close> and
  column \<open>max(0, floor((size - len)/2))\<close>, and is not among the unused entries; and
  when the answer is no longer than the grid is wide, the returned grid holds its
  letters on that row from that column on.
\<close>

theorem generateCrossword_seed:
  "generateCrossword rnd [] =
     Inr (\<lparr>puzzle_grid = replicate 15 (replicate 15 Null),
           puzzle_numbers = replicate 15 (replicate 15 None),
           puzzle_acrossClues = [], puzzle_downClues = [], puzzle_unused = []\<rparr>, [])
   \<and> (entriesInput \<noteq> [] \<longrightarrow>
       (\<exists>seed rest puzzle first others.
          sortByLength (shuffleArray rnd entriesInput) = seed # rest
          \<and> seed \<in> set entriesInput
          \<and> (\<forall>e\<in>set entriesInput. length (entry_answer e) \<le> length (entry_answer seed))
          \<and> generateCrossword rnd entriesInput = Inr (puzzle, first # others)
          \<and> first = seed\<lparr>entry_placed := True, entry_row := Some (int (GRID_SIZE div 2)),
                 entry_col := Some (max 0 ((int GRID_SIZE
                                - int (length (entry_answer seed))) div 2)),
                 entry_direction := Some Across\<rparr>
          \<and> length others = length rest
          \<and> first \<notin> set (puzzle_unused puzzle)
          \<and> (length (entry_answer seed) \<le> GRID_SIZE \<longrightarrow>
               (\<forall>i<length (entry_answer seed).
                  getCell (puzzle_grid puzzle) (int (GRID_SIZE div 2))
                    (max 0 ((int GRID_SIZE - int (length (entry_answer seed))) div 2) + int i)
                  = Inr (Str [entry_answer seed ! i])))))"
proof (rule conjI)
  show "generateCrossword rnd [] =
     Inr (\<lparr>puzzle_grid = replicate 15 (replicate 15 Null),
           puzzle_numbers = replicate 15 (replicate 15 None),
           puzzle_acrossClues = [], puzzle_downClues = [], puzzle_unused = []\<rparr>, [])"
    by (simp add: generateCrossword_def shuffleArray_Nil sortByLength_def
          createEmptyGrid_cw_def createEmptyNumbers_def GRID_SIZE_def)
next
  show "entriesInput \<noteq> [] \<longrightarrow>
       (\<exists>seed rest puzzle first others.
          sortByLength (shuffleArray rnd entriesInput) = seed # rest
          \<and> seed \<in> set entriesInput
          \<and> (\<forall>e\<in>set entriesInput. length (entry_answer e) \<le> length (entry_answer seed))
          \<and> generateCrossword rnd entriesInput = Inr (puzzle, first # others)
          \<and> first = seed\<lparr>entry_placed := True, entry_row := Some (int (GRID_SIZE div 2)),
                 entry_col := Some (max 0 ((int GRID_SIZE
                                - int (length (entry_answer seed))) div 2)),
                 entry_direction := Some Across\<rparr>
          \<and> length others = length rest
          \<and> first \<notin> set (puzzle_unused puzzle)
          \<and> (length (entry_answer seed) \<le> GRID_SIZE \<longrightarrow>
               (\<forall>i<length (entry_answer seed).
                  getCell (puzzle_grid puzzle) (int (GRID_SIZE div 2))
                    (max 0 ((int GRID_SIZE - int (length (entry_answer seed))) div 2) + int i)
                  = Inr (Str [entry_answer seed ! i]))))"
  proof
    assume ne: "entriesInput \<noteq> []"
    let ?sorted = "sortByLength (shuffleArray rnd entriesInput)"
    have se: "set ?sorted = set entriesInput"
      by (simp add: set_sortByLength set_shuffleArray)
    then have "?sorted \<noteq> []" using ne by auto
    then obtain seed rest where s: "?sorted = seed # rest" by (cases ?sorted) simp_all
    have mem: "seed \<in> set entriesInput" using se s by auto
    have mx: "\<forall>e\<in>set entriesInput. length (entry_answer e) \<le> length (entry_answer seed)"
      using sortByLength_hd [OF s] by (simp add: set_shuffleArray)
    let ?col = "max 0 ((int GRID_SIZE - int (length (entry_answer seed))) div 2)"
    let ?first = "seed\<lparr>entry_placed := True, entry_row := Some (int (GRID_SIZE div 2)),
                 entry_col := Some ?col, entry_direction := Some Across\<rparr>"
    from generateCrossword_run [OF s] obtain grid0 grid' others numbers acrossClues downClues
      where w: "writeWord (createEmptyGrid_cw GRID_SIZE) (entry_answer seed)
                  (int (GRID_SIZE div 2)) ?col 0 1 0 = Inr grid0"
      and st: "cwStep grid0 grid'"
      and lo: "length others = length rest"
      and g: "generateCrossword rnd entriesInput =
          Inr (\<lparr>puzzle_grid = grid', puzzle_numbers = numbers,
                puzzle_acrossClues = acrossClues, puzzle_downClues = downClues,
                puzzle_unused = filter (\<lambda>e. \<not> entry_placed e) (?first # others)\<rparr>,
               ?first # others)"
      by (elim exE conjE)
    let ?puzzle = "\<lparr>puzzle_grid = grid', puzzle_numbers = numbers,
                puzzle_acrossClues = acrossClues, puzzle_downClues = downClues,
                puzzle_unused = filter (\<lambda>e. \<not> entry_placed e) (?first # others)\<rparr>"
    have nu: "?first \<notin> set (puzzle_unused ?puzzle)" by simp
    have letters: "\<forall>i<length (entry_answer seed).
                  getCell (puzzle_grid ?puzzle) (int (GRID_SIZE div 2)) (?col + int i)
                  = Inr (Str [entry_answer seed ! i])"
      if le: "length (entry_answer seed) \<le> GRID_SIZE"
    proof (intro allI impI)
      fix i assume i: "i < length (entry_answer seed)"
      from seed_written [OF le] w have
        "getCell grid0 (int (GRID_SIZE div 2)) (?col + int i) = Inr (Str [entry_answer seed ! i])"
        using i by auto
      moreover have "Str [entry_answer seed ! i] \<noteq> Null" by simp
      ultimately have "getCell grid' (int (GRID_SIZE div 2)) (?col + int i)
                         = Inr (Str [entry_answer seed ! i])"
        using st unfolding cwStep_def by blast
      then show "getCell (puzzle_grid ?puzzle) (int (GRID_SIZE div 2)) (?col + int i)
                  = Inr (Str [entry_answer seed ! i])" by simp
    qed
    have f: "?first = ?first" by simp
    from s mem mx g f lo nu letters
    show "\<exists>seed rest puzzle first others.
          sortByLength (shuffleArray rnd entriesInput) = seed # rest
          \<and> seed \<in> set entriesInput
          \<and> (\<forall>e\<in>set entriesInput. length (entry_answer e) \<le> length (entry_answer seed))
          \<and> generateCrossword rnd entriesInput = Inr (puzzle, first # others)
          \<and> first = seed\<lparr>entry_placed := True, entry_row := Some (int (GRID_SIZE div 2)),
                 entry_col := Some (max 0 ((int GRID_SIZE
                                - int (length (entry_answer seed))) div 2)),
                 entry_direction := Some Across\<rparr>
          \<and> length others = length rest
          \<and> first \<notin> set (puzzle_unused puzzle)
          \<and> (length (entry_answer seed) \<le> GRID_SIZE \<longrightarrow>
               (\<forall>i<length (entry_answer seed).
                  getCell (puzzle_grid puzzle) (int (GRID_SIZE div 2))
                    (max 0 ((int GRID_SIZE - int (length (entry_answer seed))) div 2) + int i)
                  = Inr (Str [entry_answer seed ! i])))"
      by (intro exI conjI impI)
  qed
qed

theorem generateCrossword_seed_witness:
  "[demoEntry, birdEntry] \<noteq> []
   \<and> (\<exists>puzzle first others.
         generateCrossword (\<lambda>k. 0) [demoEntry, birdEntry] = Inr (puzzle, first # others)
         \<and> entry_answer first = ''BIRD'' \<and> entry_placed first
         \<and> entry_row first = Some 7 \<and> entry_col first = Some 5
         \<and> entry_direction first = Some Across
         \<and> getCell (puzzle_grid puzzle) 7 8 = Inr (Str ''D''))"
proof -
  have ne: "[demoEntry, birdEntry] \<noteq> []" by simp
  have so: "sortByLength (shuffleArray (\<lambda>k. 0) [demoEntry, birdEntry]) = [birdEntry, demoEntry]"
    by code_simp
  from mp [OF conjunct2 [OF generateCrossword_seed [of "\<lambda>k. 0" "[demoEntry, birdEntry]"]] ne]
  obtain seed rest puzzle first others where
    s: "sortByLength (shuffleArray (\<lambda>k. 0) [demoEntry, birdEntry]) = seed # rest"
    and g: "generateCrossword (\<lambda>k. 0) [demoEntry, birdEntry] = Inr (puzzle, first # others)"
    and f: "first = seed\<lparr>entry_placed := True, entry_row := Some (int (GRID_SIZE div 2)),
                 entry_col := Some (max 0 ((int GRID_SIZE
                                - int (length (entry_answer seed))) div 2)),
                 entry_direction := Some Across\<rparr>"
    and l: "length (entry_answer seed) \<le> GRID_SIZE \<longrightarrow>
               (\<forall>i<length (entry_answer seed).
                  getCell (puzzle_grid puzzle) (int (GRID_SIZE div 2))
                    (max 0 ((int GRID_SIZE - int (length (entry_answer seed))) div 2) + int i)
                  = Inr (Str [entry_answer seed ! i]))"
    by (elim exE conjE)
  have sd: "seed = birdEntry" using s so by simp
  have a: "entry_answer birdEntry = ''BIRD''" by (simp add: birdEntry_def)
  have f1: "entry_answer first = ''BIRD''" "entry_placed first" "entry_row first = Some 7"
    "entry_col first = Some 5" "entry_direction first = Some Across"
    unfolding f sd by (simp_all add: a GRID_SIZE_def)
  have "\<forall>i<4. getCell (puzzle_grid puzzle) 7 (5 + int i) = Inr (Str [''BIRD'' ! i])"
    using l unfolding sd a by (simp add: GRID_SIZE_def)
  then have "(3::nat) < 4 \<longrightarrow>
          getCell (puzzle_grid puzzle) 7 (5 + int 3) = Inr (Str [''BIRD'' ! 3])" by (rule spec)
  then have c: "getCell (puzzle_grid puzzle) 7 8 = Inr (Str ''D'')" by simp
  from g f1 c have "\<exists>puzzle first others.
         generateCrossword (\<lambda>k. 0) [demoEntry, birdEntry] = Inr (puzzle, first # others)
         \<and> entry_answer first = ''BIRD'' \<and> entry_placed first
         \<and> entry_row first = Some 7 \<and> entry_col first = Some 5
         \<and> entry_direction first = Some Across
         \<and> getCell (puzzle_grid puzzle) 7 8 = Inr (Str ''D'')"
    by (intro exI conjI)
  with ne show ?thesis by (rule conjI)
qed

lemma countBefore_Suc_col:
  "countBefore P sz r (Suc c) = countBefore P sz r c + (if P (r, c) then 1 else 0)"
  by (simp add: countBefore_def cellsBefore_def)

lemma countBefore_next_row: "countBefore P sz (Suc r) 0 = countBefore P sz r sz"
  by (simp add: countBefore_def cellsBefore_def)

lemma numberCols_result:
  assumes "r < length nums" and "length grid \<le> length (nums ! r)"
    and "n = 1 + countBefore (numberedByCode grid) (length grid) r c"
    and "c \<le> length grid"
  shows "\<exists>nums' ac' dc'.
           numberCols grid entries r c (nums, ac, dc, n)
             = (nums', ac', dc', 1 + countBefore (numberedByCode grid) (length grid) r (length grid))
           \<and> length nums' = length nums
           \<and> (\<forall>r'. r' \<noteq> r \<longrightarrow> nums' ! r' = nums ! r')
           \<and> length (nums' ! r) = length (nums ! r)
           \<and> (\<forall>c'<length grid. nums' ! r ! c' =
                 (if c \<le> c' \<and> numberedByCode grid (r, c')
                  then Some (1 + countBefore (numberedByCode grid) (length grid) r c')
                  else nums ! r ! c'))"
  using assms
proof (induction "length grid - c" arbitrary: c nums ac dc n)
  case 0
  then have c: "c = length grid" by simp
  have "numberCols grid entries r c (nums, ac, dc, n) = (nums, ac, dc, n)"
    using c by (subst numberCols.simps) simp
  then show ?case
    by (intro exI [of _ nums] exI [of _ ac] exI [of _ dc]) (use 0 c in auto)
next
  case (Suc k)
  let ?P = "numberedByCode grid"
  let ?sz = "length grid"
  have lt: "c < ?sz" using Suc.hyps(2) by simp
  have k: "k = ?sz - (c + 1)" using Suc.hyps(2) by simp
  have cle: "c + 1 \<le> ?sz" using lt by simp
  show ?case
  proof (cases "?P (r, c)")
    case False
    have step: "numberCols grid entries r c (nums, ac, dc, n)
                  = numberCols grid entries r (c + 1) (nums, ac, dc, n)"
      using lt False by (subst numberCols.simps) (auto simp: numberedByCode_def)
    have n1: "n = 1 + countBefore ?P ?sz r (c + 1)"
      using Suc.prems(3) False by (simp add: countBefore_Suc_col)
    from Suc.hyps(1) [OF k Suc.prems(1) Suc.prems(2) n1 cle, of ac dc]
    obtain nums' ac' dc' where
      r: "numberCols grid entries r (c + 1) (nums, ac, dc, n)
             = (nums', ac', dc', 1 + countBefore ?P ?sz r ?sz)"
      and l: "length nums' = length nums"
      and o: "\<forall>r'. r' \<noteq> r \<longrightarrow> nums' ! r' = nums ! r'"
      and lr: "length (nums' ! r) = length (nums ! r)"
      and cs: "\<forall>c'<?sz. nums' ! r ! c' =
                 (if c + 1 \<le> c' \<and> ?P (r, c')
                  then Some (1 + countBefore ?P ?sz r c') else nums ! r ! c')"
      by (elim exE conjE)
    have cs': "nums' ! r ! c' =
                 (if c \<le> c' \<and> ?P (r, c')
                  then Some (1 + countBefore ?P ?sz r c') else nums ! r ! c')"
      if "c' < ?sz" for c'
      using cs that False by (cases "c' = c") auto
    have final: "numberCols grid entries r c (nums, ac, dc, n)
                   = (nums', ac', dc', 1 + countBefore ?P ?sz r ?sz)"
      using step r by simp
    show ?thesis
      by (rule exI [of _ nums'], rule exI [of _ ac'], rule exI [of _ dc'])
         (use final l o lr cs' in auto)
  next
    case True
    let ?nums1 = "nums[r := (nums ! r)[c := Some n]]"
    let ?ac1 = "ac @ (if startsAcross grid r c then clueFor entries r c Across n else [])"
    let ?dc1 = "dc @ (if startsDown grid r c then clueFor entries r c Down n else [])"
    have step: "numberCols grid entries r c (nums, ac, dc, n)
                  = numberCols grid entries r (c + 1) (?nums1, ?ac1, ?dc1, n + 1)"
      using lt True by (subst numberCols.simps) (auto simp: numberedByCode_def)
    have n1: "n + 1 = 1 + countBefore ?P ?sz r (c + 1)"
      using Suc.prems(3) True by (simp add: countBefore_Suc_col)
    have p1: "r < length ?nums1" using Suc.prems(1) by simp
    have p2: "?sz \<le> length (?nums1 ! r)" using Suc.prems(1,2) by simp
    from Suc.hyps(1) [OF k p1 p2 n1 cle, of ?ac1 ?dc1]
    obtain nums' ac' dc' where
      r: "numberCols grid entries r (c + 1) (?nums1, ?ac1, ?dc1, n + 1)
             = (nums', ac', dc', 1 + countBefore ?P ?sz r ?sz)"
      and l: "length nums' = length ?nums1"
      and o: "\<forall>r'. r' \<noteq> r \<longrightarrow> nums' ! r' = ?nums1 ! r'"
      and lr: "length (nums' ! r) = length (?nums1 ! r)"
      and cs: "\<forall>c'<?sz. nums' ! r ! c' =
                 (if c + 1 \<le> c' \<and> ?P (r, c')
                  then Some (1 + countBefore ?P ?sz r c') else ?nums1 ! r ! c')"
      by (elim exE conjE)
    have here: "?nums1 ! r ! c = Some (1 + countBefore ?P ?sz r c)"
      using Suc.prems(1,2,3) lt by simp
    have other: "?nums1 ! r ! c' = nums ! r ! c'" if "c' \<noteq> c" for c'
      using Suc.prems(1) that by simp
    have cs': "nums' ! r ! c' =
                 (if c \<le> c' \<and> ?P (r, c')
                  then Some (1 + countBefore ?P ?sz r c') else nums ! r ! c')"
      if "c' < ?sz" for c'
    proof (cases "c' = c")
      case True
      then show ?thesis using cs that here \<open>?P (r, c)\<close> by simp
    next
      case False
      then show ?thesis using cs that other by auto
    qed
    have o': "\<forall>r'. r' \<noteq> r \<longrightarrow> nums' ! r' = nums ! r'" using o by simp
    have lr': "length (nums' ! r) = length (nums ! r)" using lr Suc.prems(1) by simp
    have l': "length nums' = length nums" using l by simp
    have final: "numberCols grid entries r c (nums, ac, dc, n)
                   = (nums', ac', dc', 1 + countBefore ?P ?sz r ?sz)"
      using step r by simp
    show ?thesis
      by (rule exI [of _ nums'], rule exI [of _ ac'], rule exI [of _ dc'])
         (use final l' o' lr' cs' in auto)
  qed
qed

lemma numberRows_result:
  assumes "length grid \<le> length nums"
    and "\<forall>r'<length grid. length grid \<le> length (nums ! r')"
    and "n = 1 + countBefore (numberedByCode grid) (length grid) r 0"
    and "r \<le> length grid"
  shows "\<exists>nums' ac' dc' n'.
           numberRows grid entries r (nums, ac, dc, n) = (nums', ac', dc', n')
           \<and> length nums' = length nums
           \<and> (\<forall>r'<length grid. length (nums' ! r') = length (nums ! r'))
           \<and> (\<forall>r'<length grid. \<forall>c'<length grid. nums' ! r' ! c' =
                 (if r \<le> r' \<and> numberedByCode grid (r', c')
                  then Some (1 + countBefore (numberedByCode grid) (length grid) r' c')
                  else nums ! r' ! c'))"
  using assms
proof (induction "length grid - r" arbitrary: r nums ac dc n)
  case 0
  then have r: "r = length grid" by simp
  have "numberRows grid entries r (nums, ac, dc, n) = (nums, ac, dc, n)"
    using r by (subst numberRows.simps) simp
  then show ?case
    by (intro exI [of _ nums] exI [of _ ac] exI [of _ dc] exI [of _ n]) (use r in auto)
next
  case (Suc k)
  let ?P = "numberedByCode grid"
  let ?sz = "length grid"
  have lt: "r < ?sz" using Suc.hyps(2) by simp
  have k: "k = ?sz - (r + 1)" using Suc.hyps(2) by simp
  have rle: "r + 1 \<le> ?sz" using lt by simp
  have rn: "r < length nums" using lt Suc.prems(1) by simp
  have rl: "?sz \<le> length (nums ! r)" using lt Suc.prems(2) by simp
  have z: "(0::nat) \<le> ?sz" by simp
  from numberCols_result [OF rn rl Suc.prems(3) z, of entries ac dc]
  obtain nums1 ac1 dc1 where
    c: "numberCols grid entries r 0 (nums, ac, dc, n)
             = (nums1, ac1, dc1, 1 + countBefore ?P ?sz r ?sz)"
    and l1: "length nums1 = length nums"
    and o1: "\<forall>r'. r' \<noteq> r \<longrightarrow> nums1 ! r' = nums ! r'"
    and lr1: "length (nums1 ! r) = length (nums ! r)"
    and cs1: "\<forall>c'<?sz. nums1 ! r ! c' =
                 (if 0 \<le> c' \<and> ?P (r, c')
                  then Some (1 + countBefore ?P ?sz r c') else nums ! r ! c')"
    by (elim exE conjE)
  have step: "numberRows grid entries r (nums, ac, dc, n)
                = numberRows grid entries (r + 1)
                    (nums1, ac1, dc1, 1 + countBefore ?P ?sz r ?sz)"
    using lt c by (subst numberRows.simps) simp
  have p1: "?sz \<le> length nums1" using l1 Suc.prems(1) by simp
  have p2: "\<forall>r'<?sz. ?sz \<le> length (nums1 ! r')"
  proof (intro allI impI)
    fix r' assume "r' < ?sz"
    then show "?sz \<le> length (nums1 ! r')"
      using o1 lr1 Suc.prems(2) by (cases "r' = r") auto
  qed
  have p3: "1 + countBefore ?P ?sz r ?sz = 1 + countBefore ?P ?sz (r + 1) 0"
    using countBefore_next_row [of ?P ?sz r] by simp
  from Suc.hyps(1) [OF k p1 p2 p3 rle, of ac1 dc1]
  obtain nums' ac' dc' n' where
    res: "numberRows grid entries (r + 1) (nums1, ac1, dc1, 1 + countBefore ?P ?sz r ?sz)
            = (nums', ac', dc', n')"
    and l: "length nums' = length nums1"
    and lr: "\<forall>r'<?sz. length (nums' ! r') = length (nums1 ! r')"
    and cs: "\<forall>r'<?sz. \<forall>c'<?sz. nums' ! r' ! c' =
                 (if r + 1 \<le> r' \<and> ?P (r', c')
                  then Some (1 + countBefore ?P ?sz r' c') else nums1 ! r' ! c')"
    by (elim exE conjE)
  have final: "numberRows grid entries r (nums, ac, dc, n) = (nums', ac', dc', n')"
    using step res by simp
  have l': "length nums' = length nums" using l l1 by simp
  have lr': "\<forall>r'<?sz. length (nums' ! r') = length (nums ! r')"
  proof (intro allI impI)
    fix r' assume "r' < ?sz"
    then show "length (nums' ! r') = length (nums ! r')"
      using lr o1 lr1 by (cases "r' = r") auto
  qed
  have cs': "nums' ! r' ! c' =
                 (if r \<le> r' \<and> ?P (r', c')
                  then Some (1 + countBefore ?P ?sz r' c') else nums ! r' ! c')"
    if "r' < ?sz" "c' < ?sz" for r' c'
  proof (cases "r' = r")
    case True
    then have "nums' ! r' ! c' = nums1 ! r ! c'" using cs that by simp
    then show ?thesis using cs1 that True by simp
  next
    case False
    then have "nums1 ! r' = nums ! r'" using o1 by simp
    then show ?thesis using cs that False by auto
  qed
  show ?case
    by (rule exI [of _ nums'], rule exI [of _ ac'], rule exI [of _ dc'], rule exI [of _ n'])
       (use final l' lr' cs' in auto)
qed

lemma numberAndBuildClues_numbers:
  "\<exists>numbers acrossClues downClues.
      numberAndBuildClues grid entries = (numbers, acrossClues, downClues)
      \<and> length numbers = length grid
      \<and> (\<forall>r<length grid. length (numbers ! r) = length grid)
      \<and> (\<forall>r<length grid. \<forall>c<length grid. numbers ! r ! c =
            (if numberedByCode grid (r, c)
             then Some (1 + countBefore (numberedByCode grid) (length grid) r c)
             else None))"
proof -
  let ?sz = "length grid"
  let ?P = "numberedByCode grid"
  let ?n0 = "createEmptyNumbers ?sz"
  have a1: "?sz \<le> length ?n0" by (simp add: createEmptyNumbers_def)
  have a2: "\<forall>r'<?sz. ?sz \<le> length (?n0 ! r')" by (simp add: createEmptyNumbers_def)
  have a3: "1 = 1 + countBefore ?P ?sz 0 0" by (simp add: countBefore_def cellsBefore_def)
  have a4: "(0::nat) \<le> ?sz" by simp
  from numberRows_result [OF a1 a2 a3 a4, of entries "[]" "[]"]
  obtain nums' ac' dc' n' where
    res: "numberRows grid entries 0 (?n0, [], [], 1) = (nums', ac', dc', n')"
    and l: "length nums' = length ?n0"
    and lr: "\<forall>r'<?sz. length (nums' ! r') = length (?n0 ! r')"
    and cs: "\<forall>r'<?sz. \<forall>c'<?sz. nums' ! r' ! c' =
                 (if 0 \<le> r' \<and> ?P (r', c')
                  then Some (1 + countBefore ?P ?sz r' c') else ?n0 ! r' ! c')"
    by (elim exE conjE)
  have r: "numberAndBuildClues grid entries = (nums', ac', dc')"
    using res by (simp add: numberAndBuildClues_def)
  have l': "length nums' = ?sz" using l by (simp add: createEmptyNumbers_def)
  have lr': "\<forall>r<?sz. length (nums' ! r) = ?sz" using lr by (simp add: createEmptyNumbers_def)
  have cs': "\<forall>r<?sz. \<forall>c<?sz. nums' ! r ! c =
            (if ?P (r, c) then Some (1 + countBefore ?P ?sz r c) else None)"
    using cs by (simp add: createEmptyNumbers_def)
  from r l' lr' cs' show ?thesis by (intro exI conjI)
qed

lemma letterGrid_cell:
  assumes "letterGrid grid" and "r < length grid" and "c < length grid"
  shows "getElem (grid ! r) (int c) = Null
         \<or> (\<exists>s. s \<noteq> [] \<and> getElem (grid ! r) (int c) = Str s)"
proof -
  have g: "getCell grid (int r) (int c) = Inr (getElem (grid ! r) (int c))"
    using assms(2) by (simp add: getCell_def)
  from assms have "getCell grid (int r) (int c) = Inr Null \<or> filled grid r c"
    unfolding letterGrid_def by simp
  then show ?thesis unfolding filled_def g
    by (auto split: sum.splits jsval.splits)
qed

lemma filled_iff:
  assumes "letterGrid grid" and "r < length grid" and "c < length grid"
  shows "filled grid r c = (getElem (grid ! r) (int c) \<noteq> Null)"
    and "filled grid r c = truthy (getElem (grid ! r) (int c))"
proof -
  have g: "getCell grid (int r) (int c) = Inr (getElem (grid ! r) (int c))"
    using assms(2) by (simp add: getCell_def)
  from letterGrid_cell [OF assms]
  show "filled grid r c = (getElem (grid ! r) (int c) \<noteq> Null)"
    unfolding filled_def g using assms(2,3) by auto
  from letterGrid_cell [OF assms]
  show "filled grid r c = truthy (getElem (grid ! r) (int c))"
    unfolding filled_def g using assms(2,3) by auto
qed

lemma filled_outside: "\<not> c < length grid \<Longrightarrow> \<not> filled grid r c"
  "\<not> r < length grid \<Longrightarrow> \<not> filled grid r c"
  by (simp_all add: filled_def)

lemma numbered_agree:
  assumes lg: "letterGrid grid" and r: "r < length grid" and c: "c < length grid"
  shows "numberedByCode grid (r, c) = spec_numbered grid (r, c)"
proof -
  have own: "truthy (getElem (grid ! r) (int c)) = filled grid r c"
    using filled_iff(2) [OF lg r c] by simp
  have left: "leftBlocked grid r c = (\<not> (0 < c \<and> filled grid r (c - 1)))"
  proof (cases "c = 0")
    case True
    then show ?thesis by (simp add: leftBlocked_def)
  next
    case False
    then have c1: "c - 1 < length grid" using c by simp
    have "int c - 1 = int (c - 1)" using False by simp
    then show ?thesis using False filled_iff(1) [OF lg r c1] by (simp add: leftBlocked_def)
  qed
  have right: "rightLetter grid r c = filled grid r (c + 1)"
  proof (cases "c + 1 < length grid")
    case True
    have e: "int c + 1 = int (c + 1)" by simp
    show ?thesis unfolding rightLetter_def e using True filled_iff(1) [OF lg r True]
      by simp
  next
    case False
    then show ?thesis using filled_outside(1) [OF False] by (simp add: rightLetter_def)
  qed
  have top: "topBlocked grid r c = (\<not> (0 < r \<and> filled grid (r - 1) c))"
  proof (cases "r = 0")
    case True
    then show ?thesis by (simp add: topBlocked_def)
  next
    case False
    then have r1: "r - 1 < length grid" using r by simp
    show ?thesis using False filled_iff(1) [OF lg r1 c] by (simp add: topBlocked_def)
  qed
  have bottom: "bottomLetter grid r c = filled grid (r + 1) c"
  proof (cases "r + 1 < length grid")
    case True
    then show ?thesis using filled_iff(1) [OF lg True c] by (simp add: bottomLetter_def)
  next
    case False
    then show ?thesis using filled_outside(2) [OF False] by (simp add: bottomLetter_def)
  qed
  show ?thesis
    by (simp add: numberedByCode_def spec_numbered_def startsAcross_def startsDown_def
          spec_startsAcross_def spec_startsDown_def own left right top bottom)
qed

lemma cellsBefore_inside:
  assumes "r < sz" and "c \<le> sz" and "(r', c') \<in> set (cellsBefore sz r c)"
  shows "r' < sz \<and> c' < sz"
  using assms by (auto simp: cellsBefore_def)

lemma countBefore_agree:
  assumes lg: "letterGrid grid" and r: "r < length grid" and c: "c \<le> length grid"
  shows "countBefore (numberedByCode grid) (length grid) r c
           = countBefore (spec_numbered grid) (length grid) r c"
proof -
  have "filter (numberedByCode grid) (cellsBefore (length grid) r c)
          = filter (spec_numbered grid) (cellsBefore (length grid) r c)"
  proof (rule filter_cong [OF refl])
    fix x assume x: "x \<in> set (cellsBefore (length grid) r c)"
    obtain r' c' where p: "x = (r', c')" by (cases x)
    from cellsBefore_inside [OF r c x [unfolded p]]
    show "numberedByCode grid x = spec_numbered grid x"
      unfolding p using numbered_agree [OF lg] by simp
  qed
  then show ?thesis by (simp add: countBefore_def)
qed

lemma getElem_setElem:
  "getElem (setElem xs i v) c = (if c = int i then v else getElem xs c)"
proof (cases "i < length xs")
  case True
  then show ?thesis by (auto simp: getElem_def setElem_def nth_list_update)
next
  case False
  then have l: "length xs \<le> i" by simp
  show ?thesis
  proof (cases "0 \<le> c \<and> nat c < length xs")
    case True
    then show ?thesis using l by (auto simp: getElem_def setElem_def nth_append)
  next
    case out: False
    show ?thesis
    proof (cases "c = int i")
      case True
      then show ?thesis using l by (simp add: getElem_def setElem_def nth_append)
    next
      case ne: False
      then show ?thesis using l out
        by (auto simp: getElem_def setElem_def nth_append nth_Cons split: nat.splits)
    qed
  qed
qed

lemma getCell_setCell:
  assumes "setCell grid r c v = Inr grid'"
  shows "getCell grid' r' c' = (if r' = r \<and> c' = c then Inr v else getCell grid r' c')"
proof -
  from assms have r: "0 \<le> r" "r < int (length grid)" and c: "0 \<le> c"
    and g: "grid' = grid[nat r := setElem (grid ! nat r) (nat c) v]"
    by (auto simp: setCell_def split: if_splits)
  show ?thesis
  proof (cases "0 \<le> r' \<and> r' < int (length grid)")
    case False
    then show ?thesis using r g by (auto simp: getCell_def)
  next
    case True
    show ?thesis
    proof (cases "r' = r")
      case False
      then have "nat r' \<noteq> nat r" using True r by auto
      then show ?thesis using True False g by (simp add: getCell_def)
    next
      case rr: True
      then show ?thesis using True g c by (auto simp: getCell_def getElem_setElem)
    qed
  qed
qed

lemma writeWord_changes:
  assumes "writeWord grid word row col dx dy i = Inr grid'"
  shows "length grid' = length grid
         \<and> (\<forall>r c. getCell grid' r c = getCell grid r c
                \<or> (\<exists>ch. getCell grid' r c = Inr (Str [ch])))"
  using assms
proof (induction grid word row col dx dy i rule: writeWord.induct)
  case (1 grid word row col dx dy i)
  show ?case
  proof (cases "i < length word")
    case False
    then have "grid' = grid" using "1.prems" by (subst (asm) writeWord.simps) simp
    then show ?thesis by simp
  next
    case True
    show ?thesis
    proof (cases "setCell grid (row + dx * int i) (col + dy * int i) (Str [word ! i])")
      case (Inl e)
      then show ?thesis using "1.prems" True by (subst (asm) writeWord.simps) simp
    next
      case (Inr g1)
      then have w: "writeWord g1 word row col dx dy (i + 1) = Inr grid'"
        using "1.prems" True by (subst (asm) writeWord.simps) simp
      from "1.IH" [OF True Inr w] have l: "length grid' = length g1"
        and cs: "\<forall>r c. getCell grid' r c = getCell g1 r c
                \<or> (\<exists>ch. getCell grid' r c = Inr (Str [ch]))" by simp_all
      have "getCell grid' r c = getCell grid r c \<or> (\<exists>ch. getCell grid' r c = Inr (Str [ch]))"
        for r c
      proof -
        from cs have "getCell grid' r c = getCell g1 r c
                \<or> (\<exists>ch. getCell grid' r c = Inr (Str [ch]))" by blast
        then show ?thesis using getCell_setCell [OF Inr, of r c] by auto
      qed
      then show ?thesis using l setCell_length [OF Inr] by simp
    qed
  qed
qed

lemma filled_Str: "r < length grid \<Longrightarrow> c < length grid \<Longrightarrow>
    getCell grid (int r) (int c) = Inr (Str [ch]) \<Longrightarrow> filled grid r c"
  by (simp add: filled_def)

lemma letterGrid_step:
  assumes lg: "letterGrid grid" and l: "length grid' = length grid"
    and cs: "\<forall>r c. getCell grid' r c = getCell grid r c
                \<or> (\<exists>ch. getCell grid' r c = Inr (Str [ch]))"
  shows "letterGrid grid'"
  unfolding letterGrid_def
proof (intro allI impI)
  fix r c assume r: "r < length grid'" and c: "c < length grid'"
  from cs have "getCell grid' (int r) (int c) = getCell grid (int r) (int c)
                \<or> (\<exists>ch. getCell grid' (int r) (int c) = Inr (Str [ch]))" by blast
  then show "getCell grid' (int r) (int c) = Inr Null \<or> filled grid' r c"
  proof
    assume e: "getCell grid' (int r) (int c) = getCell grid (int r) (int c)"
    from lg r c l have "getCell grid (int r) (int c) = Inr Null \<or> filled grid r c"
      unfolding letterGrid_def by simp
    then show ?thesis using e l by (auto simp: filled_def)
  next
    assume "\<exists>ch. getCell grid' (int r) (int c) = Inr (Str [ch])"
    then show ?thesis using filled_Str [OF r c] by blast
  qed
qed

lemma letterGrid_empty: "letterGrid (createEmptyGrid_cw n)"
proof -
  have l: "length (createEmptyGrid_cw n) = n" by (simp add: createEmptyGrid_cw_def)
  show ?thesis unfolding letterGrid_def l using getCell_createEmptyGrid_cw by simp
qed

lemma cwStep_letterGrid: "cwStep grid grid' \<Longrightarrow> letterGrid grid \<Longrightarrow> letterGrid grid'"
  using letterGrid_step unfolding cwStep_def by blast

lemma generateCrossword_letterGrid:
  assumes g: "generateCrossword rnd entriesInput = Inr (puzzle, entries')"
  shows "letterGrid (puzzle_grid puzzle) \<and> length (puzzle_grid puzzle) = GRID_SIZE
         \<and> puzzle_numbers puzzle = fst (numberAndBuildClues (puzzle_grid puzzle) entries')"
proof (cases "sortByLength (shuffleArray rnd entriesInput)")
  case Nil
  have e: "fst (numberAndBuildClues (createEmptyGrid_cw GRID_SIZE) [])
             = createEmptyNumbers GRID_SIZE"
    by code_simp
  from g Nil have p: "puzzle_grid puzzle = createEmptyGrid_cw GRID_SIZE"
    "puzzle_numbers puzzle = createEmptyNumbers GRID_SIZE" "entries' = []"
    by (auto simp: generateCrossword_def)
  show ?thesis unfolding p e using letterGrid_empty by (simp add: createEmptyGrid_cw_def)
next
  case (Cons seed rest)
  from generateCrossword_run [OF Cons] obtain grid0 grid' others numbers acrossClues downClues
    where w: "writeWord (createEmptyGrid_cw GRID_SIZE) (entry_answer seed)
                (int (GRID_SIZE div 2))
                (max 0 ((int GRID_SIZE - int (length (entry_answer seed))) div 2)) 0 1 0
              = Inr grid0"
    and st: "cwStep grid0 grid'"
    and r: "generateCrossword rnd entriesInput =
          Inr (\<lparr>puzzle_grid = grid', puzzle_numbers = numbers,
                puzzle_acrossClues = acrossClues, puzzle_downClues = downClues,
                puzzle_unused = filter (\<lambda>e. \<not> entry_placed e)
                  (seed\<lparr>entry_placed := True, entry_row := Some (int (GRID_SIZE div 2)),
                     entry_col := Some (max 0 ((int GRID_SIZE
                                    - int (length (entry_answer seed))) div 2)),
                     entry_direction := Some Across\<rparr> # others)\<rparr>,
               seed\<lparr>entry_placed := True, entry_row := Some (int (GRID_SIZE div 2)),
                     entry_col := Some (max 0 ((int GRID_SIZE
                                    - int (length (entry_answer seed))) div 2)),
                     entry_direction := Some Across\<rparr> # others)"
    and l0: "length grid0 = GRID_SIZE"
    and nb: "numberAndBuildClues grid'
            (seed\<lparr>entry_placed := True, entry_row := Some (int (GRID_SIZE div 2)),
                     entry_col := Some (max 0 ((int GRID_SIZE
                                    - int (length (entry_answer seed))) div 2)),
                     entry_direction := Some Across\<rparr> # others)
          = (numbers, acrossClues, downClues)"
    by (elim exE conjE)
  from writeWord_changes [OF w] have "letterGrid grid0"
    using letterGrid_step [OF letterGrid_empty] by blast
  then have lg: "letterGrid grid'" using cwStep_letterGrid [OF st] by simp
  have l: "length grid' = GRID_SIZE" using cwStep_length [OF st] l0 by simp
  from g r have "puzzle_grid puzzle = grid'" "puzzle_numbers puzzle = numbers"
    "entries' = seed\<lparr>entry_placed := True, entry_row := Some (int (GRID_SIZE div 2)),
                     entry_col := Some (max 0 ((int GRID_SIZE
                                    - int (length (entry_answer seed))) div 2)),
                     entry_direction := Some Across\<rparr> # others"
    by auto
  then show ?thesis using lg l nb by simp
qed

text \<open>
  C7. In a crossword grid (every cell of the square \<open>null\<close> or a letter)
  \<open>numberAndBuildClues\<close> gives a cell a number exactly when the cell is filled and
  starts an across entry (no filled cell to its left, a filled cell to its right) or a
  down entry (no filled cell above, a filled cell below); the number is one more than
  the number of such cells before it in row-major order, so the numbers start at 1 and
  grow by one from each numbered cell to the next, a cell that starts both an across
  and a down entry counting once. Every grid that \<open>generateCrossword\<close> numbers is
  such a grid.
\<close>

theorem numbering_spec:
  "(letterGrid grid \<longrightarrow>
      (\<exists>numbers acrossClues downClues.
          numberAndBuildClues grid entries = (numbers, acrossClues, downClues)
          \<and> length numbers = length grid
          \<and> (\<forall>r<length grid. length (numbers ! r) = length grid
               \<and> (\<forall>c<length grid. numbers ! r ! c =
                    (if spec_numbered grid (r, c)
                     then Some (1 + countBefore (spec_numbered grid) (length grid) r c)
                     else None)))))
   \<and> (\<forall>puzzle entries'. generateCrossword rnd entriesInput = Inr (puzzle, entries') \<longrightarrow>
         letterGrid (puzzle_grid puzzle)
         \<and> puzzle_numbers puzzle = fst (numberAndBuildClues (puzzle_grid puzzle) entries'))"
proof (rule conjI)
  show "letterGrid grid \<longrightarrow>
      (\<exists>numbers acrossClues downClues.
          numberAndBuildClues grid entries = (numbers, acrossClues, downClues)
          \<and> length numbers = length grid
          \<and> (\<forall>r<length grid. length (numbers ! r) = length grid
               \<and> (\<forall>c<length grid. numbers ! r ! c =
                    (if spec_numbered grid (r, c)
                     then Some (1 + countBefore (spec_numbered grid) (length grid) r c)
                     else None))))"
  proof
    assume lg: "letterGrid grid"
    from numberAndBuildClues_numbers [of grid entries]
    obtain numbers acrossClues downClues where
      n: "numberAndBuildClues grid entries = (numbers, acrossClues, downClues)"
      and l: "length numbers = length grid"
      and lr: "\<forall>r<length grid. length (numbers ! r) = length grid"
      and cs: "\<forall>r<length grid. \<forall>c<length grid. numbers ! r ! c =
            (if numberedByCode grid (r, c)
             then Some (1 + countBefore (numberedByCode grid) (length grid) r c)
             else None)"
      by (elim exE conjE)
    have cell: "numbers ! r ! c =
                    (if spec_numbered grid (r, c)
                     then Some (1 + countBefore (spec_numbered grid) (length grid) r c)
                     else None)"
      if r: "r < length grid" and c: "c < length grid" for r c
    proof -
      have cl: "c \<le> length grid" using c by simp
      show ?thesis
        using cs r c numbered_agree [OF lg r c] countBefore_agree [OF lg r cl] by simp
    qed
    have "\<forall>r<length grid. length (numbers ! r) = length grid
               \<and> (\<forall>c<length grid. numbers ! r ! c =
                    (if spec_numbered grid (r, c)
                     then Some (1 + countBefore (spec_numbered grid) (length grid) r c)
                     else None))"
      using lr cell by simp
    with n l show "\<exists>numbers acrossClues downClues.
          numberAndBuildClues grid entries = (numbers, acrossClues, downClues)
          \<and> length numbers = length grid
          \<and> (\<forall>r<length grid. length (numbers ! r) = length grid
               \<and> (\<forall>c<length grid. numbers ! r ! c =
                    (if spec_numbered grid (r, c)
                     then Some (1 + countBefore (spec_numbered grid) (length grid) r c)
                     else None)))"
      by (intro exI conjI)
  qed
next
  show "\<forall>puzzle entries'. generateCrossword rnd entriesInput = Inr (puzzle, entries') \<longrightarrow>
         letterGrid (puzzle_grid puzzle)
         \<and> puzzle_numbers puzzle = fst (numberAndBuildClues (puzzle_grid puzzle) entries')"
    using generateCrossword_letterGrid by blast
qed

theorem numbering_spec_witness:
  "letterGrid demoGrid
   \<and> (\<exists>numbers acrossClues downClues.
         numberAndBuildClues demoGrid [] = (numbers, acrossClues, downClues)
         \<and> numbers ! 0 ! 0 = Some 1 \<and> numbers ! 0 ! 1 = None \<and> numbers ! 0 ! 2 = Some 2
         \<and> numbers ! 1 ! 2 = None)"
proof -
  have len: "length demoGrid = 3" by (simp add: demoGrid_def)
  have lg: "letterGrid demoGrid"
    unfolding letterGrid_def len
    by (simp add: eval_nat_numeral All_less_Suc filled_def getCell_def getElem_def demoGrid_def)
  from mp [OF conjunct1 [OF numbering_spec [of demoGrid "[]"]] lg]
  obtain numbers acrossClues downClues where
    n: "numberAndBuildClues demoGrid [] = (numbers, acrossClues, downClues)"
    and cs: "\<forall>r<length demoGrid. length (numbers ! r) = length demoGrid
               \<and> (\<forall>c<length demoGrid. numbers ! r ! c =
                    (if spec_numbered demoGrid (r, c)
                     then Some (1 + countBefore (spec_numbered demoGrid) (length demoGrid) r c)
                     else None))"
    by (elim exE conjE)
  have cell: "numbers ! r ! c =
                    (if spec_numbered demoGrid (r, c)
                     then Some (1 + countBefore (spec_numbered demoGrid) (length demoGrid) r c)
                     else None)" if "r < 3" "c < 3" for r c
    using cs that unfolding len by simp
  have e00: "(if spec_numbered demoGrid (0, 0)
               then Some (1 + countBefore (spec_numbered demoGrid) (length demoGrid) 0 0)
               else None) = Some 1" by code_simp
  have e01: "(if spec_numbered demoGrid (0, 1)
               then Some (1 + countBefore (spec_numbered demoGrid) (length demoGrid) 0 1)
               else None) = None" by code_simp
  have e02: "(if spec_numbered demoGrid (0, 2)
               then Some (1 + countBefore (spec_numbered demoGrid) (length demoGrid) 0 2)
               else None) = Some 2" by code_simp
  have e12: "(if spec_numbered demoGrid (1, 2)
               then Some (1 + countBefore (spec_numbered demoGrid) (length demoGrid) 1 2)
               else None) = None" by code_simp
  have a: "numbers ! 0 ! 0 = Some 1" using cell [of 0 0] e00 by simp
  have b: "numbers ! 0 ! 1 = None" using cell [of 0 1] e01 by simp
  have c: "numbers ! 0 ! 2 = Some 2" using cell [of 0 2] e02 by simp
  have d: "numbers ! 1 ! 2 = None" using cell [of 1 2] e12 by simp
  from n a b c d have "\<exists>numbers acrossClues downClues.
         numberAndBuildClues demoGrid [] = (numbers, acrossClues, downClues)
         \<and> numbers ! 0 ! 0 = Some 1 \<and> numbers ! 0 ! 1 = None \<and> numbers ! 0 ! 2 = Some 2
         \<and> numbers ! 1 ! 2 = None"
    by (intro exI conjI)
  with lg show ?thesis by (rule conjI)
qed

end
